theory Spec2Isabelle
  imports Main
begin

section \<open>JavaScript values used by the popover script\<close>

text \<open>
  The script is \<^verbatim>\<open>src/unnamed/part_001\<close> (the popover engine). Depths are JavaScript
  numbers: integers, or \<open>NaN\<close> when \<^verbatim>\<open>parseInt\<close> finds no digit. Integers are
  modelled exactly (the script only ever adds one to them), so the rounding of numbers
  beyond \<open>2^53\<close> is outside the model.
\<close>

datatype jsnum = Num int | NaN

datatype error = TypeError | RangeError | ReferenceError | URIError | SyntaxError

text \<open>\<^verbatim>\<open>a >= b\<close> and \<^verbatim>\<open>a < b\<close> on numbers: any comparison with \<open>NaN\<close> is false.\<close>

fun js_ge :: "jsnum \<Rightarrow> jsnum \<Rightarrow> bool" where
  "js_ge (Num a) (Num b) = (b \<le> a)"
| "js_ge _ _ = False"

fun js_gt :: "jsnum \<Rightarrow> jsnum \<Rightarrow> bool" where
  "js_gt (Num a) (Num b) = (b < a)"
| "js_gt _ _ = False"

fun js_add :: "jsnum \<Rightarrow> int \<Rightarrow> jsnum" where
  "js_add (Num a) k = Num (a + k)"
| "js_add NaN k = NaN"

fun js_times_plus :: "int \<Rightarrow> jsnum \<Rightarrow> int \<Rightarrow> jsnum" where
  "js_times_plus c (Num a) k = Num (c + a * k)"
| "js_times_plus c NaN k = NaN"

subsection \<open>\<^verbatim>\<open>Number.prototype.toString\<close>\<close>

function nat_toString :: "nat \<Rightarrow> string" where
  "nat_toString n =
     (if n < 10 then [''0123456789'' ! n]
      else nat_toString (n div 10) @ [''0123456789'' ! (n mod 10)])"
  by pat_completeness auto
termination
  by (relation "measure (\<lambda>n. n)") auto

declare nat_toString.simps [simp del]

fun toString :: "jsnum \<Rightarrow> string" where
  "toString NaN = ''NaN''"
| "toString (Num i) = (if i < 0 then CHR ''-'' # nat_toString (nat (- i)) else nat_toString (nat i))"

subsection \<open>\<^verbatim>\<open>parseInt\<close>\<close>

text \<open>
  \<^verbatim>\<open>parseInt(string, radix)\<close> after ECMAScript: leading white space is dropped, a sign is
  read, a \<^verbatim>\<open>0x\<close> prefix selects radix 16 when the radix is absent, 0 or 16, and the
  longest prefix of digits of the radix is the value; no digit gives \<open>NaN\<close>. The radix
  is \<open>None\<close> where the script passes none. Only the ASCII white space characters are
  modelled.
\<close>

definition isWhiteSpace :: "char \<Rightarrow> bool" where
  "isWhiteSpace c = (c = CHR '' '' \<or> c = CHR 0x09 \<or> c = CHR 0x0A \<or> c = CHR 0x0B
     \<or> c = CHR 0x0C \<or> c = CHR 0x0D)"

definition digitValue :: "char \<Rightarrow> nat option" where
  "digitValue c =
     (let n = (of_char c :: nat) in
      if 48 \<le> n \<and> n \<le> 57 then Some (n - 48)
      else if 97 \<le> n \<and> n \<le> 122 then Some (n - 87)
      else if 65 \<le> n \<and> n \<le> 90 then Some (n - 55)
      else None)"

definition isRadixDigit :: "nat \<Rightarrow> char \<Rightarrow> bool" where
  "isRadixDigit R c = (case digitValue c of None \<Rightarrow> False | Some v \<Rightarrow> v < R)"

definition digitsValue :: "nat \<Rightarrow> string \<Rightarrow> nat" where
  "digitsValue R Z =
     foldl (\<lambda>a c. a * R + (case digitValue c of None \<Rightarrow> 0 | Some v \<Rightarrow> v)) 0 Z"

definition parseInt :: "string \<Rightarrow> nat option \<Rightarrow> jsnum" where
  "parseInt str radix =
     (let S0 = dropWhile isWhiteSpace str;
          negative = (take 1 S0 = ''-'');
          S1 = (if take 1 S0 = ''-'' \<or> take 1 S0 = ''+'' then drop 1 S0 else S0);
          R0 = (case radix of None \<Rightarrow> 0 | Some r \<Rightarrow> r)
      in if R0 \<noteq> 0 \<and> (R0 < 2 \<or> 36 < R0) then NaN
         else
           (let stripPrefix = (R0 = 0 \<or> R0 = 16);
                hex = (stripPrefix \<and> (take 2 S1 = ''0x'' \<or> take 2 S1 = ''0X''));
                S2 = (if hex then drop 2 S1 else S1);
                R = (if hex then 16 else if R0 = 0 then 10 else R0);
                Z = takeWhile (isRadixDigit R) S2
            in if Z = [] then NaN
               else if negative then Num (- int (digitsValue R Z))
               else Num (int (digitsValue R Z))))"

section \<open>The document and the module state\<close>

type_synonym ref = nat

record url =
  origin :: string
  pathname :: string
  search :: string
  hash :: string

text \<open>
  An element of the page, with the attributes and properties the script reads or
  writes. \<open>ident\<close> is the \<^verbatim>\<open>id\<close> attribute (\<open>None\<close> when absent), \<open>depthAttr\<close>,
  \<open>noPopoverAttr\<close> and \<open>contentTypeAttr\<close> are \<^verbatim>\<open>dataset.depth\<close>,
  \<^verbatim>\<open>dataset.noPopover\<close> and \<^verbatim>\<open>dataset.contentType\<close>; \<open>href\<close> is the parsed
  \<^verbatim>\<open>href\<close> of an anchor (\<open>None\<close> when \<^verbatim>\<open>new URL(link.href)\<close> would throw). The three
  booleans say whether \<^verbatim>\<open>mouseEnterHandler\<close>, \<^verbatim>\<open>handleLinkLeave\<close> and a popover's own
  enter/leave closures are registered on the element (the DOM registers a given
  listener at most once).
\<close>

record element =
  tagName :: string
  ident :: "string option"
  classList :: "string list"
  depthAttr :: "string option"
  noPopoverAttr :: "string option"
  contentTypeAttr :: "string option"
  zIndex :: string
  href :: "url option"
  src :: string
  alt :: string
  offsetTop :: int
  enterListener :: bool
  leaveListener :: bool
  popoverListeners :: bool

text \<open>
  The tree relation of the document is a forest of references: \<open>doc\<close> holds the
  children of \<^verbatim>\<open>document.body\<close> (the \<^verbatim>\<open>html\<close> and \<^verbatim>\<open>body\<close> elements themselves are
  taken to carry neither the popover class nor an id the script looks up). The
  attributes of every element, attached or not, live in \<open>heap\<close>, so that an element
  held by \<^verbatim>\<open>activePopoverStack\<close> and the one found in the document are the same object.
\<close>

datatype dom = Dom ref "dom list"

datatype html = Html element "html list"

datatype event =
    Fetch url
  | ConsoleError
  | ComputePosition ref ref int int
  | ScrollTo ref int

record state =
  doc :: "dom list"
  heap :: "ref \<Rightarrow> element"
  nextRef :: ref
  activeAnchor :: "ref option"
  activePopoverStack :: "ref option list"
  hideTimeouts :: "(jsnum \<times> nat) list"
  popoverListenersAttached :: "(ref \<times> ref list) list"
  timers :: "(nat \<times> jsnum) list"
  nextTimer :: nat
  trace :: "event list"

text \<open>
  \<open>activePopoverStack\<close> is a JavaScript array: \<open>None\<close> is a hole. \<open>hideTimeouts\<close> is
  the \<^verbatim>\<open>Map\<close> from depth to timer id, in insertion order. \<open>timers\<close> is the browser's
  table of pending timeouts created by \<^verbatim>\<open>window.setTimeout\<close>: timer id and the depth its
  callback closes over. \<open>trace\<close> records the calls to the external services.
\<close>

definition MAX_POPOVER_DEPTH :: jsnum where
  "MAX_POPOVER_DEPTH = Num 3"

subsection \<open>Tree queries\<close>

fun refs_of :: "dom \<Rightarrow> ref list" where
  "refs_of (Dom r ks) = r # concat (map refs_of ks)"

definition forest_refs :: "dom list \<Rightarrow> ref list" where
  "forest_refs ks = concat (map refs_of ks)"

fun root :: "dom \<Rightarrow> ref" where
  "root (Dom r ks) = r"

fun kids :: "dom \<Rightarrow> dom list" where
  "kids (Dom r ks) = ks"

fun path_to :: "ref \<Rightarrow> dom \<Rightarrow> ref list option"
  and path_in :: "ref \<Rightarrow> dom list \<Rightarrow> ref list option" where
  "path_to r (Dom x ks) = (if x = r then Some [] else map_option (\<lambda>p. p @ [x]) (path_in r ks))"
| "path_in r [] = None"
| "path_in r (k # ks) = (case path_to r k of Some p \<Rightarrow> Some p | None \<Rightarrow> path_in r ks)"

text \<open>The chain \<^verbatim>\<open>el.parentElement, el.parentElement.parentElement, ...\<close>, nearest first.\<close>

definition ancestors :: "dom list \<Rightarrow> ref \<Rightarrow> ref list" where
  "ancestors d r = (case path_in r d of None \<Rightarrow> [] | Some p \<Rightarrow> p)"

fun subtree :: "ref \<Rightarrow> dom \<Rightarrow> dom option"
  and subtree_in :: "ref \<Rightarrow> dom list \<Rightarrow> dom option" where
  "subtree r (Dom x ks) = (if x = r then Some (Dom x ks) else subtree_in r ks)"
| "subtree_in r [] = None"
| "subtree_in r (k # ks) = (case subtree r k of Some t \<Rightarrow> Some t | None \<Rightarrow> subtree_in r ks)"

fun remove_in :: "ref \<Rightarrow> dom list \<Rightarrow> dom list" where
  "remove_in r [] = []"
| "remove_in r (Dom x ks # rest) =
     (if x = r then remove_in r rest else Dom x (remove_in r ks) # remove_in r rest)"

definition hasClass :: "(ref \<Rightarrow> element) \<Rightarrow> string \<Rightarrow> ref \<Rightarrow> bool" where
  "hasClass h c r = (c \<in> set (classList (h r)))"

definition querySelectorAll_class :: "dom list \<Rightarrow> (ref \<Rightarrow> element) \<Rightarrow> string \<Rightarrow> ref list" where
  "querySelectorAll_class d h c = filter (hasClass h c) (forest_refs d)"

definition isInternalLink :: "(ref \<Rightarrow> element) \<Rightarrow> ref \<Rightarrow> bool" where
  "isInternalLink h r = (tagName (h r) = ''a'' \<and> hasClass h ''internal'' r)"

definition getElementById :: "dom list \<Rightarrow> (ref \<Rightarrow> element) \<Rightarrow> string \<Rightarrow> ref option" where
  "getElementById d h i = find (\<lambda>r. ident (h r) = Some i) (forest_refs d)"

text \<open>\<^verbatim>\<open>el.closest(sel)\<close>: the element itself or its nearest ancestor that matches.\<close>

definition closest :: "dom list \<Rightarrow> (ref \<Rightarrow> element) \<Rightarrow> (ref \<Rightarrow> bool) \<Rightarrow> ref \<Rightarrow> ref option" where
  "closest d h P r = find P (r # ancestors d r)"

subsection \<open>\<^verbatim>\<open>classList\<close>\<close>

definition classList_add :: "string \<Rightarrow> string list \<Rightarrow> string list" where
  "classList_add c cs = (if c \<in> set cs then cs else cs @ [c])"

definition classList_remove :: "string \<Rightarrow> string list \<Rightarrow> string list" where
  "classList_remove c cs = filter (\<lambda>x. x \<noteq> c) cs"

definition removeClass :: "string \<Rightarrow> ref \<Rightarrow> state \<Rightarrow> state" where
  "removeClass c r s =
     s\<lparr>heap := (heap s)(r := (heap s r)\<lparr>classList := classList_remove c (classList (heap s r))\<rparr>)\<rparr>"

section \<open>The depth stack\<close>

text \<open>Reading \<^verbatim>\<open>activePopoverStack[i]\<close>: \<^verbatim>\<open>undefined\<close> outside the array and at a hole.\<close>

definition stack_get :: "ref option list \<Rightarrow> int \<Rightarrow> ref option" where
  "stack_get xs i = (if 0 \<le> i \<and> nat i < length xs then xs ! nat i else None)"

text \<open>
  \<^verbatim>\<open>activePopoverStack.length = n\<close>: truncates or pads with holes; a length that is not
  an integer in \<open>[0, 2^32 - 1]\<close> throws \<^verbatim>\<open>RangeError\<close>.
\<close>

definition set_length :: "jsnum \<Rightarrow> ref option list \<Rightarrow> error + ref option list" where
  "set_length n xs =
     (case n of
        NaN \<Rightarrow> Inl RangeError
      | Num k \<Rightarrow>
          if 0 \<le> k \<and> k < 4294967296
          then Inr (take (nat k) xs @ replicate (nat k - length xs) None)
          else Inl RangeError)"

text \<open>
  \<^verbatim>\<open>activePopoverStack[depth] = el\<close>: beyond the end the array grows, with holes between;
  a key that is not an array index (\<open>NaN\<close>, a negative number) becomes a plain property
  and leaves the elements alone.
\<close>

definition stack_set :: "jsnum \<Rightarrow> ref \<Rightarrow> ref option list \<Rightarrow> ref option list" where
  "stack_set n r xs =
     (case n of
        NaN \<Rightarrow> xs
      | Num k \<Rightarrow>
          if 0 \<le> k \<and> k < 4294967295
          then (xs @ replicate (Suc (nat k) - length xs) None)[nat k := Some r]
          else xs)"

datatype result = Returned state | Threw error state

fun state_of :: "result \<Rightarrow> state" where
  "state_of (Returned s) = s"
| "state_of (Threw e s) = s"

text \<open>The body of the loop of \<^verbatim>\<open>clearDeeperPopovers\<close>.\<close>

definition clearAt :: "int \<Rightarrow> state \<Rightarrow> state" where
  "clearAt i s =
     (case stack_get (activePopoverStack s) i of
        None \<Rightarrow> s
      | Some popover \<Rightarrow> removeClass ''active-popover'' popover s)"

function clearLoop :: "int \<Rightarrow> state \<Rightarrow> state" where
  "clearLoop i s =
     (if i < int (length (activePopoverStack s)) then clearLoop (i + 1) (clearAt i s) else s)"
  by pat_completeness auto
termination
  by (relation "measure (\<lambda>(i, s). nat (int (length (activePopoverStack s)) - i))")
     (auto simp: clearAt_def removeClass_def split: option.split)

declare clearLoop.simps [simp del]

definition clearDeeperPopovers :: "jsnum \<Rightarrow> state \<Rightarrow> result" where
  "clearDeeperPopovers keepDepth s =
     (let s1 = (case keepDepth of NaN \<Rightarrow> s | Num k \<Rightarrow> clearLoop k s)
      in case set_length keepDepth (activePopoverStack s1) of
           Inl e \<Rightarrow> Threw e s1
         | Inr xs \<Rightarrow> Returned (s1\<lparr>activePopoverStack := xs\<rparr>))"

section \<open>The hide-timer registry\<close>

definition map_get :: "(jsnum \<times> nat) list \<Rightarrow> jsnum \<Rightarrow> nat option" where
  "map_get m k = map_of m k"

definition map_delete :: "jsnum \<Rightarrow> (jsnum \<times> nat) list \<Rightarrow> (jsnum \<times> nat) list" where
  "map_delete k m = filter (\<lambda>e. fst e \<noteq> k) m"

fun map_set :: "jsnum \<Rightarrow> nat \<Rightarrow> (jsnum \<times> nat) list \<Rightarrow> (jsnum \<times> nat) list" where
  "map_set k v [] = [(k, v)]"
| "map_set k v ((k', v') # m) = (if k' = k then (k, v) # m else (k', v') # map_set k v m)"

definition clearTimeout :: "nat \<Rightarrow> state \<Rightarrow> state" where
  "clearTimeout t s = s\<lparr>timers := filter (\<lambda>e. fst e \<noteq> t) (timers s)\<rparr>"

definition scheduleHideAtDepth :: "jsnum \<Rightarrow> state \<Rightarrow> state" where
  "scheduleHideAtDepth depth s =
     (let s1 = (case map_get (hideTimeouts s) depth of
                  None \<Rightarrow> s
                | Some existingTimeout \<Rightarrow> clearTimeout existingTimeout s);
          timeoutId = nextTimer s1;
          s2 = s1\<lparr>timers := timers s1 @ [(timeoutId, depth)], nextTimer := Suc timeoutId\<rparr>
      in s2\<lparr>hideTimeouts := map_set depth timeoutId (hideTimeouts s2)\<rparr>)"

text \<open>
  The callback given to \<^verbatim>\<open>setTimeout\<close>, run by the browser when timer \<open>t\<close> (closing over
  \<open>depth\<close>) expires; the timer leaves the browser's table as it fires. When
  \<^verbatim>\<open>clearDeeperPopovers\<close> throws, the \<^verbatim>\<open>delete\<close> after it is not reached.
\<close>

definition timerFires :: "nat \<Rightarrow> jsnum \<Rightarrow> state \<Rightarrow> result" where
  "timerFires t depth s =
     (case clearDeeperPopovers depth (clearTimeout t s) of
        Threw e s1 \<Rightarrow> Threw e s1
      | Returned s1 \<Rightarrow> Returned (s1\<lparr>hideTimeouts := map_delete depth (hideTimeouts s1)\<rparr>))"

text \<open>
  \<^verbatim>\<open>hideTimeouts.forEach\<close> visits the entries in insertion order; deleting the entry
  being visited does not disturb the visit of the others.
\<close>

definition cancelEntry :: "jsnum \<Rightarrow> jsnum \<times> nat \<Rightarrow> state \<Rightarrow> state" where
  "cancelEntry depth e s =
     (if js_ge (fst e) depth
      then (clearTimeout (snd e) s)\<lparr>hideTimeouts := map_delete (fst e) (hideTimeouts s)\<rparr>
      else s)"

definition cancelHideTimeoutsFromDepth :: "jsnum \<Rightarrow> state \<Rightarrow> state" where
  "cancelHideTimeoutsFromDepth depth s = fold (cancelEntry depth) (hideTimeouts s) s"

section \<open>Depth of a link and of a popover\<close>

text \<open>\<^verbatim>\<open>x || "0"\<close> on a \<^verbatim>\<open>dataset\<close> entry: absent and empty both give \<^verbatim>\<open>"0"\<close>.\<close>

definition orZero :: "string option \<Rightarrow> string" where
  "orZero d = (case d of None \<Rightarrow> ''0'' | Some x \<Rightarrow> if x = [] then ''0'' else x)"

text \<open>The loop of \<^verbatim>\<open>getCurrentPopoverDepth\<close> over the chain of parents.\<close>

fun depthWalk :: "(ref \<Rightarrow> element) \<Rightarrow> ref list \<Rightarrow> jsnum" where
  "depthWalk h [] = Num 0"
| "depthWalk h (parent # rest) =
     (if hasClass h ''popover'' parent
      then js_add (parseInt (orZero (depthAttr (h parent))) None) 1
      else depthWalk h rest)"

definition getCurrentPopoverDepth :: "state \<Rightarrow> ref \<Rightarrow> jsnum" where
  "getCurrentPopoverDepth s link = depthWalk (heap s) (ancestors (doc s) link)"

definition getPopoverDepth :: "(ref \<Rightarrow> element) \<Rightarrow> ref \<Rightarrow> jsnum" where
  "getPopoverDepth h popover =
     (case depthAttr (h popover) of
        None \<Rightarrow> Num 0
      | Some depthStr \<Rightarrow>
          if depthStr = [] then Num 0
          else (case parseInt depthStr (Some 10) of NaN \<Rightarrow> Num 0 | Num depth \<Rightarrow> Num depth))"

section \<open>The hover handler\<close>

text \<open>
  The services outside the script: \<^verbatim>\<open>decodeURIComponent\<close> (\<open>None\<close> when it throws
  \<^verbatim>\<open>URIError\<close>), the \<^verbatim>\<open>DOMParser\<close>, \<^verbatim>\<open>normalizeRelativeURLs\<close> of
  \<^verbatim>\<open>util/path\<close> (not part of the sources at hand), and the selector engine on
  selectors that are not \<^verbatim>\<open>#\<close> followed by a plain identifier.
\<close>

record env =
  decodeURIComponent :: "string \<Rightarrow> string option"
  parseFromString :: "string \<Rightarrow> html list"
  normalizeRelativeURLs :: "url \<Rightarrow> html list \<Rightarrow> html list"
  otherSelector :: "string \<Rightarrow> ref list \<Rightarrow> (ref \<Rightarrow> element) \<Rightarrow> error + ref option"

text \<open>The local constants of one run of \<^verbatim>\<open>mouseEnterHandler\<close>.\<close>

record locals =
  link :: ref
  clientX :: int
  clientY :: int
  currentDepth :: jsnum
  targetUrl :: url
  hashDecoded :: string
  popoverId :: string

record response =
  contentTypeHeader :: "string option"
  body :: string

datatype 'k outcome = Finished result | Await 'k state

fun outcome_state :: "'k outcome \<Rightarrow> state" where
  "outcome_state (Finished r) = state_of r"
| "outcome_state (Await k s) = s"

definition descendants :: "dom list \<Rightarrow> ref \<Rightarrow> ref list" where
  "descendants d r = (case subtree_in r d of None \<Rightarrow> [] | Some t \<Rightarrow> forest_refs (kids t))"

definition cssIdentChar :: "char \<Rightarrow> bool" where
  "cssIdentChar c =
     (let n = (of_char c :: nat) in
      (48 \<le> n \<and> n \<le> 57) \<or> (65 \<le> n \<and> n \<le> 90) \<or> (97 \<le> n \<and> n \<le> 122)
      \<or> n = 45 \<or> n = 95 \<or> 128 \<le> n)"

text \<open>
  \<^verbatim>\<open>popoverInner.querySelector(sel)\<close> for the selector the script builds,
  \<^verbatim>\<open>#popover-internal-...\<close>: when the rest is a plain identifier it selects the first
  descendant with that id.
\<close>

definition querySelector ::
  "env \<Rightarrow> dom list \<Rightarrow> (ref \<Rightarrow> element) \<Rightarrow> ref \<Rightarrow> string \<Rightarrow> error + ref option" where
  "querySelector env d h inner sel =
     (if take 1 sel = ''#'' \<and> drop 1 sel \<noteq> [] \<and> list_all cssIdentChar (drop 1 sel)
      then Inr (find (\<lambda>r. ident (h r) = Some (drop 1 sel)) (descendants d inner))
      else otherSelector env sel (descendants d inner) h)"

text \<open>
  \<^verbatim>\<open>showPopover\<close> is a closure over \<^verbatim>\<open>link\<close>, the pointer position, \<^verbatim>\<open>hash\<close> and
  \<^verbatim>\<open>popoverInner\<close>. The last is a \<^verbatim>\<open>const\<close> declared further down the handler: until
  its declaration has run, reading it throws \<^verbatim>\<open>ReferenceError\<close>; \<open>None\<close> stands for
  that. \<^verbatim>\<open>setPosition\<close> calls the geometry service at once (the trace entry) and applies
  its answer to \<^verbatim>\<open>style.transform\<close> later, which is not modelled.
\<close>

definition showPopover ::
  "env \<Rightarrow> locals \<Rightarrow> ref option \<Rightarrow> ref \<Rightarrow> jsnum \<Rightarrow> state \<Rightarrow> result" where
  "showPopover env k popoverInner popoverElement depth s =
     (case clearDeeperPopovers depth s of
        Threw e s1 \<Rightarrow> Threw e s1
      | Returned s1 \<Rightarrow>
          (let el = heap s1 popoverElement;
               s2 = s1\<lparr>heap := (heap s1)(popoverElement := el\<lparr>
                        classList := classList_add ''active-popover'' (classList el),
                        depthAttr := Some (toString depth),
                        zIndex := toString (js_times_plus 999 depth 10)\<rparr>),
                      trace := trace s1 @ [ComputePosition (link k) popoverElement (clientX k) (clientY k)]\<rparr>;
               s3 = s2\<lparr>activePopoverStack := stack_set depth popoverElement (activePopoverStack s2)\<rparr>
           in if hashDecoded k \<noteq> []
              then (case popoverInner of
                      None \<Rightarrow> Threw ReferenceError s3
                    | Some inner \<Rightarrow>
                        (case querySelector env (doc s3) (heap s3) inner
                                (''#popover-internal-'' @ drop 1 (hashDecoded k)) of
                           Inl e \<Rightarrow> Threw e s3
                         | Inr None \<Rightarrow> Returned s3
                         | Inr (Some heading) \<Rightarrow>
                             Returned (s3\<lparr>trace := trace s3 @
                               [ScrollTo inner (offsetTop (heap s3 heading) - 12)]\<rparr>)))
              else Returned s3))"

subsection \<open>\<^verbatim>\<open>attachPopoverListeners\<close>\<close>

definition weak_set :: "ref \<Rightarrow> ref list \<Rightarrow> (ref \<times> ref list) list \<Rightarrow> (ref \<times> ref list) list" where
  "weak_set k v m = (k, v) # filter (\<lambda>e. fst e \<noteq> k) m"

definition attachLink :: "ref \<Rightarrow> ref \<Rightarrow> state \<Rightarrow> state" where
  "attachLink popoverElement l s =
     (let attachedLinks = (case map_of (popoverListenersAttached s) popoverElement of
                             None \<Rightarrow> [] | Some ls \<Rightarrow> ls)
      in if l \<in> set attachedLinks then s
         else s\<lparr>heap := (heap s)(l := (heap s l)\<lparr>enterListener := True\<rparr>),
                popoverListenersAttached :=
                  weak_set popoverElement (attachedLinks @ [l]) (popoverListenersAttached s)\<rparr>)"

definition attachPopoverListeners :: "ref \<Rightarrow> state \<Rightarrow> state" where
  "attachPopoverListeners popoverElement s =
     (let links = filter (isInternalLink (heap s)) (descendants (doc s) popoverElement);
          s1 = (case map_of (popoverListenersAttached s) popoverElement of
                  None \<Rightarrow> s\<lparr>popoverListenersAttached :=
                             weak_set popoverElement [] (popoverListenersAttached s)\<rparr>
                | Some ls \<Rightarrow> s)
      in fold (attachLink popoverElement) links s1)"

subsection \<open>From the pointer entering a link to the fetch\<close>

definition mouseEnterHandler :: "env \<Rightarrow> ref \<Rightarrow> int \<Rightarrow> int \<Rightarrow> state \<Rightarrow> locals outcome" where
  "mouseEnterHandler env this x y s0 =
     (let s = s0\<lparr>activeAnchor := Some this\<rparr>
      in if noPopoverAttr (heap s this) = Some ''true'' then Finished (Returned s)
         else
           (let depth = getCurrentPopoverDepth s this;
                s1 = cancelHideTimeoutsFromDepth depth s
            in if js_ge depth MAX_POPOVER_DEPTH then Finished (Returned s1)
               else
                 (case href (heap s1 this) of
                    None \<Rightarrow> Finished (Threw TypeError s1)
                  | Some u \<Rightarrow>
                      (case decodeURIComponent env (hash u) of
                         None \<Rightarrow> Finished (Threw URIError s1)
                       | Some h \<Rightarrow>
                           (let k = \<lparr>link = this, clientX = x, clientY = y,
                                     currentDepth = depth,
                                     targetUrl = u\<lparr>hash := [], search := []\<rparr>,
                                     hashDecoded = h,
                                     popoverId = ''popover-'' @ pathname u\<rparr>
                            in case getElementById (doc s1) (heap s1) (popoverId k) of
                                 Some prevPopoverElement \<Rightarrow>
                                   (case showPopover env k None prevPopoverElement depth s1 of
                                      Threw e s2 \<Rightarrow> Finished (Threw e s2)
                                    | Returned s2 \<Rightarrow>
                                        Finished (Returned (attachPopoverListeners prevPopoverElement s2)))
                               | None \<Rightarrow>
                                   Await k (s1\<lparr>trace := trace s1 @ [Fetch (targetUrl k)]\<rparr>))))))"

subsection \<open>After the fetch\<close>

text \<open>
  \<^verbatim>\<open>const [a] = s.split(c)\<close> and \<^verbatim>\<open>const [a, b] = s.split(c)\<close> for a one-character
  separator: the first piece always exists, the second is \<^verbatim>\<open>undefined\<close> when the
  separator does not occur.
\<close>

definition splitFirst :: "char \<Rightarrow> string \<Rightarrow> string" where
  "splitFirst c str = takeWhile (\<lambda>x. x \<noteq> c) str"

definition splitSecond :: "char \<Rightarrow> string \<Rightarrow> string option" where
  "splitSecond c str =
     (case dropWhile (\<lambda>x. x \<noteq> c) str of
        [] \<Rightarrow> None
      | _ # rest \<Rightarrow> Some (takeWhile (\<lambda>x. x \<noteq> c) rest))"

definition blank :: "string \<Rightarrow> element" where
  "blank t = \<lparr>tagName = t, ident = None, classList = [], depthAttr = None,
     noPopoverAttr = None, contentTypeAttr = None, zIndex = [], href = None, src = [],
     alt = [], offsetTop = 0, enterListener = False, leaveListener = False,
     popoverListeners = False\<rparr>"

text \<open>\<^verbatim>\<open>document.createElement\<close>: a fresh element, in no tree.\<close>

definition createElement :: "element \<Rightarrow> state \<Rightarrow> ref \<times> state" where
  "createElement e s = (nextRef s, s\<lparr>heap := (heap s)(nextRef s := e), nextRef := Suc (nextRef s)\<rparr>)"

definition url_toString :: "url \<Rightarrow> string" where
  "url_toString u = origin u @ pathname u @ search u @ hash u"

text \<open>
  Lines 137 to 194 of the script: the two checks around \<^verbatim>\<open>appendChild\<close>, then the
  activation and the wiring of the popover. \<open>popoverTree\<close> is the detached tree built
  so far, \<^verbatim>\<open>popoverElement\<close> at its root and \<^verbatim>\<open>popoverInner\<close> its only child.
\<close>

definition finish :: "env \<Rightarrow> locals \<Rightarrow> ref \<Rightarrow> ref \<Rightarrow> dom list \<Rightarrow> state \<Rightarrow> result" where
  "finish env k popoverElement popoverInner innerKids s =
     (case getElementById (doc s) (heap s) (popoverId k) of
        Some other \<Rightarrow> Returned s
      | None \<Rightarrow>
          (let s1 = s\<lparr>doc := doc s @ [Dom popoverElement [Dom popoverInner innerKids]]\<rparr>
           in if activeAnchor s1 \<noteq> Some (link k) then Returned s1
              else
                (case showPopover env k (Some popoverInner) popoverElement (currentDepth k) s1 of
                   Threw e s2 \<Rightarrow> Threw e s2
                 | Returned s2 \<Rightarrow>
                     (let s3 = attachPopoverListeners popoverElement s2
                      in Returned (s3\<lparr>heap := (heap s3)(popoverElement :=
                           (heap s3 popoverElement)\<lparr>popoverListeners := True\<rparr>)\<rparr>)))))"

text \<open>
  The handler resumes with the response (\<open>None\<close>: the fetch failed and the
  \<^verbatim>\<open>catch\<close> logged it). For an image or an \<^verbatim>\<open>application/*\<close> type it runs to its
  end; otherwise it waits again, for the text of the body.
\<close>

definition afterFetch ::
  "env \<Rightarrow> locals \<Rightarrow> response option \<Rightarrow> state \<Rightarrow> (locals \<times> ref \<times> ref \<times> string) outcome" where
  "afterFetch env k resp s =
     (case resp of
        None \<Rightarrow> Finished (Returned (s\<lparr>trace := trace s @ [ConsoleError]\<rparr>))
      | Some r \<Rightarrow>
          (case contentTypeHeader r of
             None \<Rightarrow> Finished (Threw TypeError s)
           | Some header \<Rightarrow>
               (let contentType = splitFirst CHR '';'' header;
                    contentTypeCategory = splitFirst CHR ''/'' contentType;
                    typeInfo = splitSecond CHR ''/'' contentType;
                    (popoverElement, s1) = createElement
                       ((blank ''div'')\<lparr>ident := Some (popoverId k), classList := [''popover'']\<rparr>) s;
                    (popoverInner, s2) = createElement
                       ((blank ''div'')\<lparr>classList := [''popover-inner''],
                          contentTypeAttr := Some contentType\<rparr>) s1
                in if contentTypeCategory = ''image'' then
                     (let (img, s3) = createElement
                            ((blank ''img'')\<lparr>src := url_toString (targetUrl k),
                               alt := pathname (targetUrl k)\<rparr>) s2
                      in Finished (finish env k popoverElement popoverInner [Dom img []] s3))
                   else if contentTypeCategory = ''application'' then
                     (if typeInfo = Some ''pdf'' then
                        (let (pdf, s3) = createElement
                               ((blank ''iframe'')\<lparr>src := url_toString (targetUrl k)\<rparr>) s2
                         in Finished (finish env k popoverElement popoverInner [Dom pdf []] s3))
                      else Finished (finish env k popoverElement popoverInner [] s2))
                   else Await (k, popoverElement, popoverInner, body r) s2)))"

subsection \<open>After the text of an HTML response\<close>

text \<open>The elements of the parsed document become objects of their own.\<close>

fun adopt :: "html \<Rightarrow> state \<Rightarrow> dom \<times> state"
  and adopt_list :: "html list \<Rightarrow> state \<Rightarrow> dom list \<times> state" where
  "adopt (Html e ks) s =
     (let r = nextRef s;
          s1 = s\<lparr>heap := (heap s)(r := e), nextRef := Suc r\<rparr>;
          res = adopt_list ks s1
      in (Dom r (fst res), snd res))"
| "adopt_list [] s = ([], s)"
| "adopt_list (k # ks) s =
     (let res1 = adopt k s;
          res2 = adopt_list ks (snd res1)
      in (fst res1 # fst res2, snd res2))"

definition prefixId :: "ref \<Rightarrow> state \<Rightarrow> state" where
  "prefixId r s =
     (case ident (heap s r) of
        None \<Rightarrow> s
      | Some i \<Rightarrow> s\<lparr>heap := (heap s)(r := (heap s r)\<lparr>ident := Some (''popover-internal-'' @ i)\<rparr>)\<rparr>)"

text \<open>
  \<^verbatim>\<open>popoverInner.appendChild(elt)\<close> moves \<open>elt\<close> with its subtree from where it is: the
  parsed document, or inside an element appended before it.
\<close>

definition appendChild_move :: "ref \<Rightarrow> dom list \<times> dom list \<Rightarrow> dom list \<times> dom list" where
  "appendChild_move elt st =
     (case subtree_in elt (snd st) of
        Some t \<Rightarrow> (fst st, remove_in elt (snd st) @ [t])
      | None \<Rightarrow>
          (case subtree_in elt (fst st) of
             Some t \<Rightarrow> (remove_in elt (fst st), snd st @ [t])
           | None \<Rightarrow> st))"

definition afterText ::
  "env \<Rightarrow> locals \<Rightarrow> ref \<Rightarrow> ref \<Rightarrow> string \<Rightarrow> state \<Rightarrow> result" where
  "afterText env k popoverElement popoverInner contents s =
     (let parsed = adopt_list (normalizeRelativeURLs env (targetUrl k) (parseFromString env contents)) s;
          html = fst parsed;
          s1 = fold prefixId (forest_refs html) (snd parsed);
          elts = filter (hasClass (heap s1) ''popover-hint'') (forest_refs html)
      in if elts = [] then Returned s1
         else finish env k popoverElement popoverInner
                (snd (fold appendChild_move elts (html, []))) s1)"

section \<open>The popover's own handlers and the link's leave handler\<close>

definition popoverEnter :: "ref \<Rightarrow> state \<Rightarrow> state" where
  "popoverEnter popoverElement s =
     cancelHideTimeoutsFromDepth (parseInt (orZero (depthAttr (heap s popoverElement))) None) s"

definition js_eq :: "jsnum \<Rightarrow> jsnum \<Rightarrow> bool" where
  "js_eq a b = (a \<noteq> NaN \<and> a = b)"

definition popoverLeave :: "ref \<Rightarrow> ref option \<Rightarrow> state \<Rightarrow> result" where
  "popoverLeave popoverElement relatedTarget s =
     (let currentElementDepth = getPopoverDepth (heap s) popoverElement
      in case relatedTarget of
           None \<Rightarrow> Returned (scheduleHideAtDepth currentElementDepth s)
         | Some rt \<Rightarrow>
             (case closest (doc s) (heap s) (hasClass (heap s) ''popover'') rt of
                Some leavingToPopover \<Rightarrow>
                  (let leavingToDepth = getPopoverDepth (heap s) leavingToPopover
                   in if js_gt leavingToDepth currentElementDepth then Returned s
                      else if js_eq leavingToDepth currentElementDepth
                      then Returned (scheduleHideAtDepth currentElementDepth s)
                      else clearDeeperPopovers (js_add leavingToDepth 1) s)
              | None \<Rightarrow>
                  (case closest (doc s) (heap s) (isInternalLink (heap s)) rt of
                     Some leavingToLink \<Rightarrow> Returned (scheduleHideAtDepth currentElementDepth s)
                   | None \<Rightarrow> Returned (scheduleHideAtDepth currentElementDepth s))))"

definition handleLinkLeave :: "ref \<Rightarrow> ref option \<Rightarrow> state \<Rightarrow> state" where
  "handleLinkLeave this relatedTarget s =
     (case relatedTarget of
        None \<Rightarrow> scheduleHideAtDepth (Num 0) s
      | Some rt \<Rightarrow>
          (case closest (doc s) (heap s) (hasClass (heap s) ''popover'') rt of
             Some movingToPopover \<Rightarrow> s
           | None \<Rightarrow> scheduleHideAtDepth (Num 0) s))"

section \<open>Navigation\<close>

definition setEnterListener :: "bool \<Rightarrow> ref \<Rightarrow> state \<Rightarrow> state" where
  "setEnterListener b l s = s\<lparr>heap := (heap s)(l := (heap s l)\<lparr>enterListener := b\<rparr>)\<rparr>"

definition setLeaveListener :: "bool \<Rightarrow> ref \<Rightarrow> state \<Rightarrow> state" where
  "setLeaveListener b l s = s\<lparr>heap := (heap s)(l := (heap s l)\<lparr>leaveListener := b\<rparr>)\<rparr>"

text \<open>The \<^verbatim>\<open>nav\<close> listener binds the handlers of every internal link of the page.\<close>

definition onNav :: "state \<Rightarrow> state" where
  "onNav s =
     fold (\<lambda>l s. setLeaveListener True l (setEnterListener True l s))
       (filter (isInternalLink (heap s)) (forest_refs (doc s))) s"

text \<open>The clean-up it registers for each link.\<close>

definition linkCleanup :: "ref \<Rightarrow> state \<Rightarrow> state" where
  "linkCleanup l s = setLeaveListener False l (setEnterListener False l s)"

text \<open>The clean-up it registers for the popovers (lines 320 to 343).\<close>

definition removePopover :: "ref \<Rightarrow> state \<Rightarrow> state" where
  "removePopover popover s =
     (let s1 = (case map_of (popoverListenersAttached s) popover of
                  None \<Rightarrow> s
                | Some attachedLinks \<Rightarrow> fold (setEnterListener False) attachedLinks s)
      in s1\<lparr>doc := remove_in popover (doc s1)\<rparr>)"

definition teardown :: "state \<Rightarrow> state" where
  "teardown s =
     (let allPopovers = querySelectorAll_class (doc s) (heap s) ''popover'';
          s1 = fold removePopover allPopovers s;
          s2 = s1\<lparr>activePopoverStack := [], activeAnchor := None\<rparr>;
          s3 = fold (\<lambda>e. clearTimeout (snd e)) (hideTimeouts s2) s2
      in s3\<lparr>hideTimeouts := []\<rparr>)"

text \<open>\<^verbatim>\<open>clearActivePopover\<close> (defined by the script, called from nowhere in it).\<close>

definition clearActivePopover :: "state \<Rightarrow> state" where
  "clearActivePopover s =
     (let s1 = s\<lparr>activeAnchor := None\<rparr>;
          s2 = fold (removeClass ''active-popover'')
                 (querySelectorAll_class (doc s1) (heap s1) ''popover'') s1;
          s3 = s2\<lparr>activePopoverStack := []\<rparr>;
          s4 = fold (\<lambda>e. clearTimeout (snd e)) (hideTimeouts s3) s3
      in s4\<lparr>hideTimeouts := []\<rparr>)"

section \<open>The states the script can reach\<close>

text \<open>
  The module starts with no anchor, an empty stack, an empty registry and no timer of
  its own. Every event the script listens to is a step; an asynchronous handler is
  three steps, and a resumption may come with any locals (more than the browser would
  allow, which only strengthens what holds of every reachable state).
\<close>

definition initial :: "state \<Rightarrow> bool" where
  "initial s = (activeAnchor s = None \<and> activePopoverStack s = [] \<and> hideTimeouts s = []
     \<and> popoverListenersAttached s = [] \<and> timers s = [] \<and> trace s = [])"

inductive reachable :: "env \<Rightarrow> state \<Rightarrow> bool" for env :: env where
  r_init: "initial s \<Longrightarrow> reachable env s"
| r_enter: "reachable env s \<Longrightarrow> reachable env (outcome_state (mouseEnterHandler env l x y s))"
| r_fetched: "reachable env s \<Longrightarrow> reachable env (outcome_state (afterFetch env k resp s))"
| r_text: "reachable env s \<Longrightarrow> reachable env (state_of (afterText env k pe pi contents s))"
| r_popoverEnter: "reachable env s \<Longrightarrow> reachable env (popoverEnter pe s)"
| r_popoverLeave: "reachable env s \<Longrightarrow> reachable env (state_of (popoverLeave pe rt s))"
| r_linkLeave: "reachable env s \<Longrightarrow> reachable env (handleLinkLeave l rt s)"
| r_timer: "reachable env s \<Longrightarrow> (t, d) \<in> set (timers s) \<Longrightarrow>
     reachable env (state_of (timerFires t d s))"
| r_nav: "reachable env s \<Longrightarrow> reachable env (onNav s)"
| r_linkCleanup: "reachable env s \<Longrightarrow> reachable env (linkCleanup l s)"
| r_teardown: "reachable env s \<Longrightarrow> reachable env (teardown s)"

section \<open>Auxiliary notions for the proofs, and example pages\<close>

definition same_timers :: "state \<Rightarrow> state \<Rightarrow> bool" where
  "same_timers s' s = (hideTimeouts s' = hideTimeouts s \<and> timers s' = timers s \<and> nextTimer s' = nextTimer s)"

definition timers_inv :: "state \<Rightarrow> bool" where
  "timers_inv s =
     ((\<forall>t d. (t, d) \<in> set (timers s) \<longrightarrow> map_get (hideTimeouts s) d = Some t \<and> t < nextTimer s)
      \<and> distinct (map fst (timers s))
      \<and> (\<forall>d t. (d, t) \<in> set (hideTimeouts s) \<longrightarrow>
            t < nextTimer s \<and> (\<forall>d'. (t, d') \<in> set (timers s) \<longrightarrow> d' = d)))"

definition env0 :: env where
  "env0 = \<lparr>decodeURIComponent = Some, parseFromString = (\<lambda>contents. []),
     normalizeRelativeURLs = (\<lambda>u h. h), otherSelector = (\<lambda>sel ds h. Inr None)\<rparr>"

definition site :: "string \<Rightarrow> string \<Rightarrow> url" where
  "site p f = \<lparr>origin = ''https://example.org'', pathname = p, search = [], hash = f\<rparr>"

definition internalLink :: "url \<Rightarrow> element" where
  "internalLink u = (blank ''a'')\<lparr>classList := [''internal''], href := Some u\<rparr>"

definition popoverAt :: "string \<Rightarrow> string \<Rightarrow> element" where
  "popoverAt p d = (blank ''div'')\<lparr>ident := Some (''popover-'' @ p),
     classList := [''popover'', ''active-popover''], depthAttr := Some d\<rparr>"

definition deep_page :: state where
  "deep_page = \<lparr>doc = [Dom 1 [Dom 2 [Dom 3 []]], Dom 5 [Dom 6 []]],
     heap = (\<lambda>r. blank ''div'')(1 := popoverAt ''/c'' ''2'', 3 := internalLink (site ''/d'' []),
       5 := popoverAt ''/e'' ''3''),
     nextRef = 7, activeAnchor = None, activePopoverStack = [], hideTimeouts = [],
     popoverListenersAttached = [], timers = [], nextTimer = 0, trace = []\<rparr>"

definition waiting_page :: state where
  "waiting_page = state_of (popoverLeave 5 None deep_page)"

definition fresh :: "state \<Rightarrow> bool" where
  "fresh s = list_all (\<lambda>r. r < nextRef s) (forest_refs (doc s))"

text \<open>What a resumed handler leaves alone when it does not activate its popover.\<close>

definition untouched :: "state \<Rightarrow> state \<Rightarrow> bool" where
  "untouched s' s =
     (activePopoverStack s' = activePopoverStack s \<and> activeAnchor s' = activeAnchor s
      \<and> hideTimeouts s' = hideTimeouts s \<and> timers s' = timers s
      \<and> popoverListenersAttached s' = popoverListenersAttached s
      \<and> nextRef s \<le> nextRef s'
      \<and> list_all (\<lambda>r. heap s' r = heap s r) [0..<nextRef s])"

definition shell :: "locals \<Rightarrow> string \<Rightarrow> state \<Rightarrow> state" where
  "shell k contentType s =
     snd (createElement ((blank ''div'')\<lparr>classList := [''popover-inner''],
                          contentTypeAttr := Some contentType\<rparr>)
       (snd (createElement ((blank ''div'')\<lparr>ident := Some (popoverId k), classList := [''popover'']\<rparr>) s)))"

definition parsedDoc :: "env \<Rightarrow> locals \<Rightarrow> string \<Rightarrow> state \<Rightarrow> dom list \<times> state" where
  "parsedDoc env k contents s =
     adopt_list (normalizeRelativeURLs env (targetUrl k) (parseFromString env contents)) s"

definition prefixed :: "env \<Rightarrow> locals \<Rightarrow> string \<Rightarrow> state \<Rightarrow> state" where
  "prefixed env k contents s =
     fold prefixId (forest_refs (fst (parsedDoc env k contents s))) (snd (parsedDoc env k contents s))"

fun awaiting :: "'k outcome \<Rightarrow> 'k option" where
  "awaiting (Await k s) = Some k"
| "awaiting (Finished r) = None"


definition hover_a :: locals where
  "hover_a = \<lparr>link = 1, clientX = 10, clientY = 20, currentDepth = Num 0,
     targetUrl = site ''/a'' [], hashDecoded = [], popoverId = ''popover-/a''\<rparr>"


definition png :: response where
  "png = \<lparr>contentTypeHeader = Some ''image/png'', body = []\<rparr>"

fun returned :: "result \<Rightarrow> bool" where
  "returned (Returned s) = True"
| "returned (Threw e s) = False"

fun thrown :: "result \<Rightarrow> error option" where
  "thrown (Returned s) = None"
| "thrown (Threw e s) = Some e"

fun finished :: "'k outcome \<Rightarrow> result option" where
  "finished (Finished r) = Some r"
| "finished (Await k s) = None"

definition hintDiv :: element where
  "hintDiv = (blank ''div'')\<lparr>classList := [''popover-hint'']\<rparr>"

text \<open>
  A site of two pages that link to each other: the body \<^verbatim>\<open>A\<close> is the page \<^verbatim>\<open>/a\<close>, whose
  preview content holds a link to \<^verbatim>\<open>/b\<close>, and the body \<^verbatim>\<open>B\<close> is the page \<^verbatim>\<open>/b\<close>, whose
  preview content holds a link back to \<^verbatim>\<open>/a\<close>.
\<close>

definition env_cycle :: env where
  "env_cycle = \<lparr>decodeURIComponent = Some,
     parseFromString = (\<lambda>contents.
        if contents = ''A'' then [Html hintDiv [Html (internalLink (site ''/b'' [])) []]]
        else if contents = ''B'' then [Html hintDiv [Html (internalLink (site ''/a'' [])) []]]
        else []),
     normalizeRelativeURLs = (\<lambda>u h. h), otherSelector = (\<lambda>sel ds h. Inr None)\<rparr>"

definition one_link :: state where
  "one_link = \<lparr>doc = [Dom 1 []],
     heap = (\<lambda>r. blank ''div'')(1 := internalLink (site ''/a'' [])),
     nextRef = 2, activeAnchor = None, activePopoverStack = [], hideTimeouts = [],
     popoverListenersAttached = [], timers = [], nextTimer = 0, trace = []\<rparr>"

definition textHtml :: "string \<Rightarrow> response" where
  "textHtml b = \<lparr>contentTypeHeader = Some ''text/html; charset=utf-8'', body = b\<rparr>"

definition hover_b :: locals where
  "hover_b = \<lparr>link = 5, clientX = 30, clientY = 40, currentDepth = Num 1,
     targetUrl = site ''/b'' [], hashDecoded = [], popoverId = ''popover-/b''\<rparr>"

text \<open>The link to \<^verbatim>\<open>/a\<close> is hovered and its popover (element 2) is shown at depth 0.\<close>

definition cycle1 :: state where
  "cycle1 = state_of (afterText env_cycle hover_a 2 3 ''A''
     (outcome_state (afterFetch env_cycle hover_a (Some (textHtml ''A''))
       (outcome_state (mouseEnterHandler env_cycle 1 10 20 one_link)))))"

text \<open>Inside it the link to \<^verbatim>\<open>/b\<close> (element 5) is hovered: popover 6 is shown at depth 1.\<close>

definition cycle2 :: state where
  "cycle2 = state_of (afterText env_cycle hover_b 6 7 ''B''
     (outcome_state (afterFetch env_cycle hover_b (Some (textHtml ''B''))
       (outcome_state (mouseEnterHandler env_cycle 5 30 40 cycle1)))))"

text \<open>
  Inside that one the link back to \<^verbatim>\<open>/a\<close> (element 9) is hovered: the popover of \<^verbatim>\<open>/a\<close>
  is reused and recorded at depth 2 as well.
\<close>

definition cycle3 :: state where
  "cycle3 = outcome_state (mouseEnterHandler env_cycle 9 50 60 cycle2)"

text \<open>
  A popover (element 1) whose \<^verbatim>\<open>data-depth\<close> is not a number, with a link (element 3)
  inside it, and a hide timer pending at depth 0.
\<close>

definition garbled_page :: state where
  "garbled_page = \<lparr>doc = [Dom 1 [Dom 2 [Dom 3 []]]],
     heap = (\<lambda>r. blank ''div'')(1 := popoverAt ''/c'' ''abc'', 3 := internalLink (site ''/d'' [])),
     nextRef = 4, activeAnchor = None, activePopoverStack = [Some 1], hideTimeouts = [(Num 0, 0)],
     popoverListenersAttached = [], timers = [(0, Num 0)], nextTimer = 1, trace = []\<rparr>"

definition hover_d :: locals where
  "hover_d = \<lparr>link = 3, clientX = 10, clientY = 20, currentDepth = NaN,
     targetUrl = site ''/d'' [], hashDecoded = [], popoverId = ''popover-/d''\<rparr>"

text \<open>
  A page with two links to the same page and different fragments (elements 1 and 2);
  the body \<^verbatim>\<open>P\<close> is that page, with two headings in its preview content.
\<close>

definition heading :: "string \<Rightarrow> int \<Rightarrow> element" where
  "heading i y = (blank ''h2'')\<lparr>ident := Some i, offsetTop := y\<rparr>"

definition env_page :: env where
  "env_page = \<lparr>decodeURIComponent = Some,
     parseFromString = (\<lambda>contents.
        if contents = ''P''
        then [Html hintDiv [Html (heading ''sectionA'' 100) [], Html (heading ''sectionB'' 300) []]]
        else []),
     normalizeRelativeURLs = (\<lambda>u h. h), otherSelector = (\<lambda>sel ds h. Inr None)\<rparr>"

definition fragment_links :: state where
  "fragment_links = \<lparr>doc = [Dom 1 [], Dom 2 []],
     heap = (\<lambda>r. blank ''div'')(1 := internalLink (site ''/page'' ''#sectionA''),
       2 := internalLink (site ''/page'' ''#sectionB'')),
     nextRef = 3, activeAnchor = None, activePopoverStack = [], hideTimeouts = [],
     popoverListenersAttached = [], timers = [], nextTimer = 0, trace = []\<rparr>"

definition hover_sectionA :: locals where
  "hover_sectionA = \<lparr>link = 1, clientX = 10, clientY = 20, currentDepth = Num 0,
     targetUrl = site ''/page'' [], hashDecoded = ''#sectionA'', popoverId = ''popover-/page''\<rparr>"

text \<open>The first link was hovered and its popover (element 3, inner container 4) is shown.\<close>

definition sectionA_shown :: state where
  "sectionA_shown = state_of (afterText env_page hover_sectionA 3 4 ''P''
     (outcome_state (afterFetch env_page hover_sectionA (Some (textHtml ''P''))
       (outcome_state (mouseEnterHandler env_page 1 10 20 fragment_links)))))"

fun isScroll :: "event \<Rightarrow> bool" where
  "isScroll (ScrollTo r t) = True"
| "isScroll e = False"

text \<open>Hiding and showing touch nothing of an element but the class \<^verbatim>\<open>active-popover\<close>.\<close>

definition visibility_only :: "state \<Rightarrow> state \<Rightarrow> bool" where
  "visibility_only s' s =
     (doc s' = doc s \<and> nextRef s' = nextRef s \<and> activeAnchor s' = activeAnchor s
      \<and> popoverListenersAttached s' = popoverListenersAttached s \<and> trace s' = trace s
      \<and> (\<forall>r. tagName (heap s' r) = tagName (heap s r) \<and> ident (heap s' r) = ident (heap s r)
            \<and> depthAttr (heap s' r) = depthAttr (heap s r)
            \<and> enterListener (heap s' r) = enterListener (heap s r)
            \<and> (\<forall>c. c \<noteq> ''active-popover'' \<longrightarrow> hasClass (heap s') c r = hasClass (heap s) c r)))"

definition attachedLinks :: "state \<Rightarrow> ref \<Rightarrow> ref list" where
  "attachedLinks s p = (case map_of (popoverListenersAttached s) p of None \<Rightarrow> [] | Some ls \<Rightarrow> ls)"

fun isFetch :: "event \<Rightarrow> bool" where
  "isFetch (Fetch u) = True"
| "isFetch e = False"

text \<open>The link to \<^verbatim>\<open>/a\<close> was hovered and its fetch failed.\<close>

definition fetch_failed :: state where
  "fetch_failed = outcome_state (afterFetch env0 hover_a None
     (outcome_state (mouseEnterHandler env0 1 10 20 one_link)))"

fun elements_of :: "html \<Rightarrow> element list" where
  "elements_of (Html e ks) = e # concat (map elements_of ks)"

definition forest_elements :: "html list \<Rightarrow> element list" where
  "forest_elements hs = concat (map elements_of hs)"

definition content_kept :: "state \<Rightarrow> state \<Rightarrow> bool" where
  "content_kept s' s =
     (\<forall>r. ident (heap s' r) = ident (heap s r)
        \<and> (\<forall>c. c \<noteq> ''active-popover'' \<longrightarrow> hasClass (heap s') c r = hasClass (heap s) c r))"

definition prefixedElement :: "element \<Rightarrow> element" where
  "prefixedElement e = (case ident e of None \<Rightarrow> e
     | Some i \<Rightarrow> e\<lparr>ident := Some (''popover-internal-'' @ i)\<rparr>)"

definition json :: response where
  "json = \<lparr>contentTypeHeader = Some ''application/json'', body = ''P''\<rparr>"

definition hidden :: "element \<Rightarrow> element" where
  "hidden e = e\<lparr>classList := classList_remove ''active-popover'' (classList e)\<rparr>"

text \<open>
  The page of \<open>sectionA_shown\<close> with the second link given a query as well as a
  fragment.
\<close>

definition query_link_page :: state where
  "query_link_page = sectionA_shown\<lparr>heap := (heap sectionA_shown)(2 := internalLink
     \<lparr>origin = ''https://example.org'', pathname = ''/page'', search = ''?v=2'',
      hash = ''#sectionB''\<rparr>)\<rparr>"

definition query_url :: url where
  "query_url = \<lparr>origin = ''https://example.org'', pathname = ''/page'', search = ''?v=2'',
      hash = ''#sectionB''\<rparr>"

text \<open>The first link of \<open>fragment_links\<close> was hovered: the fetch is in flight.\<close>

definition sectionA_fetching :: state where
  "sectionA_fetching = outcome_state (mouseEnterHandler env_page 1 10 20 fragment_links)"

text \<open>The HTML response has arrived: the handler waits for the text.\<close>

definition sectionA_waiting :: state where
  "sectionA_waiting =
     outcome_state (afterFetch env_page hover_sectionA (Some (textHtml ''P'')) sectionA_fetching)"

section \<open>Properties\<close>

lemma fold_cancel_frame:
  "doc (fold (cancelEntry d) es s) = doc s \<and> heap (fold (cancelEntry d) es s) = heap s
   \<and> nextRef (fold (cancelEntry d) es s) = nextRef s
   \<and> activeAnchor (fold (cancelEntry d) es s) = activeAnchor s
   \<and> activePopoverStack (fold (cancelEntry d) es s) = activePopoverStack s
   \<and> popoverListenersAttached (fold (cancelEntry d) es s) = popoverListenersAttached s
   \<and> nextTimer (fold (cancelEntry d) es s) = nextTimer s
   \<and> trace (fold (cancelEntry d) es s) = trace s"
  by (induction es arbitrary: s) (simp_all add: cancelEntry_def clearTimeout_def)

lemma cancel_frame [simp]:
  "doc (cancelHideTimeoutsFromDepth d s) = doc s"
  "heap (cancelHideTimeoutsFromDepth d s) = heap s"
  "nextRef (cancelHideTimeoutsFromDepth d s) = nextRef s"
  "activeAnchor (cancelHideTimeoutsFromDepth d s) = activeAnchor s"
  "activePopoverStack (cancelHideTimeoutsFromDepth d s) = activePopoverStack s"
  "popoverListenersAttached (cancelHideTimeoutsFromDepth d s) = popoverListenersAttached s"
  "nextTimer (cancelHideTimeoutsFromDepth d s) = nextTimer s"
  "trace (cancelHideTimeoutsFromDepth d s) = trace s"
  by (simp_all add: cancelHideTimeoutsFromDepth_def fold_cancel_frame)

lemma fold_cancel_hideTimeouts:
  "hideTimeouts (fold (cancelEntry d) es s) =
     filter (\<lambda>e. \<not> (\<exists>x \<in> set es. js_ge (fst x) d \<and> fst x = fst e)) (hideTimeouts s)"
  by (induction es arbitrary: s)
     (auto simp: cancelEntry_def clearTimeout_def map_delete_def intro!: filter_cong)

lemma fold_cancel_timers:
  "timers (fold (cancelEntry d) es s) =
     filter (\<lambda>e. \<not> (\<exists>x \<in> set es. js_ge (fst x) d \<and> snd x = fst e)) (timers s)"
  by (induction es arbitrary: s)
     (auto simp: cancelEntry_def clearTimeout_def intro!: filter_cong)

lemma cancel_hideTimeouts:
  "hideTimeouts (cancelHideTimeoutsFromDepth d s) = filter (\<lambda>e. \<not> js_ge (fst e) d) (hideTimeouts s)"
  unfolding cancelHideTimeoutsFromDepth_def fold_cancel_hideTimeouts
  by (rule filter_cong) auto

lemma cancel_timers:
  "timers (cancelHideTimeoutsFromDepth d s) =
     filter (\<lambda>e. \<not> (\<exists>x \<in> set (hideTimeouts s). js_ge (fst x) d \<and> snd x = fst e)) (timers s)"
  by (simp add: cancelHideTimeoutsFromDepth_def fold_cancel_timers)

lemma same_timers_refl [simp]: "same_timers s s"
  by (simp add: same_timers_def)

lemma same_timers_trans: "same_timers s2 s1 \<Longrightarrow> same_timers s1 s \<Longrightarrow> same_timers s2 s"
  by (simp add: same_timers_def)

lemma same_timers_upd [simp]:
  "same_timers (s'\<lparr>heap := h\<rparr>) s = same_timers s' s"
  "same_timers (s'\<lparr>doc := d\<rparr>) s = same_timers s' s"
  "same_timers (s'\<lparr>nextRef := n\<rparr>) s = same_timers s' s"
  "same_timers (s'\<lparr>activeAnchor := a\<rparr>) s = same_timers s' s"
  "same_timers (s'\<lparr>activePopoverStack := st\<rparr>) s = same_timers s' s"
  "same_timers (s'\<lparr>popoverListenersAttached := w\<rparr>) s = same_timers s' s"
  "same_timers (s'\<lparr>trace := tr\<rparr>) s = same_timers s' s"
  by (simp_all add: same_timers_def)

lemma clearAt_stack [simp]: "activePopoverStack (clearAt i s) = activePopoverStack s"
  by (simp add: clearAt_def removeClass_def split: option.split)

lemma clearAt_timers [simp]: "same_timers (clearAt i s) s"
  by (simp add: clearAt_def removeClass_def split: option.split)

lemma clearLoop_timers [simp]: "same_timers (clearLoop i s) s"
proof (induction i s rule: clearLoop.induct)
  case (1 i s)
  show ?case
  proof (cases "i < int (length (activePopoverStack s))")
    case True
    with 1 have "same_timers (clearLoop (i + 1) (clearAt i s)) (clearAt i s)" by simp
    then have "same_timers (clearLoop (i + 1) (clearAt i s)) s"
      by (rule same_timers_trans) simp
    with True show ?thesis by (subst clearLoop.simps) simp
  next
    case False
    then show ?thesis by (subst clearLoop.simps) simp
  qed
qed

lemma clearDeeper_timers [simp]: "same_timers (state_of (clearDeeperPopovers d s)) s"
  by (cases d) (simp_all add: clearDeeperPopovers_def Let_def split: sum.split)

lemma showPopover_timers [simp]: "same_timers (state_of (showPopover env k pi pe d s)) s"
proof -
  have "same_timers (state_of (clearDeeperPopovers d s)) s" by simp
  then show ?thesis
    unfolding showPopover_def
    by (cases "clearDeeperPopovers d s")
       (auto simp: Let_def split: option.split sum.split)
qed

lemma attachLink_timers [simp]: "same_timers (attachLink p l s) s"
  by (simp add: attachLink_def Let_def)

lemma fold_same_timers:
  assumes "\<And>x s. same_timers (f x s) s"
  shows "same_timers (fold f xs s) s"
proof (induction xs arbitrary: s)
  case Nil show ?case by simp
next
  case (Cons x xs)
  have "same_timers (fold f xs (f x s)) (f x s)" by (rule Cons.IH)
  then show ?case using assms[of x s] by (simp add: same_timers_def)
qed

lemma attach_timers [simp]: "same_timers (attachPopoverListeners p s) s"
  unfolding attachPopoverListeners_def Let_def
  by (rule same_timers_trans[OF fold_same_timers]) (simp_all split: option.split)

lemma finish_timers [simp]: "same_timers (state_of (finish env k pe pi ks s)) s"
proof -
  let ?s1 = "s\<lparr>doc := doc s @ [Dom pe [Dom pi ks]]\<rparr>"
  have a: "same_timers (state_of (showPopover env k (Some pi) pe (currentDepth k) ?s1)) s"
    by (rule same_timers_trans[OF showPopover_timers]) simp
  have b: "\<And>s2. showPopover env k (Some pi) pe (currentDepth k) ?s1 = Returned s2 \<Longrightarrow>
     same_timers (attachPopoverListeners pe s2) s"
    using a by (auto intro: same_timers_trans[OF attach_timers])
  show ?thesis
    unfolding finish_def Let_def using a b
    by (auto split: option.split result.split)
qed

lemma createElement_timers [simp]: "same_timers (snd (createElement e s)) s"
  by (simp add: createElement_def)

lemma afterFetch_timers [simp]: "same_timers (outcome_state (afterFetch env k resp s)) s"
  unfolding afterFetch_def Let_def
  by (auto split: option.split prod.split simp: createElement_def
      intro: same_timers_trans[OF finish_timers])

lemma adopt_timers:
  "same_timers (snd (adopt h s)) s"
  "same_timers (snd (adopt_list hs s)) s"
proof (induction h s and hs s rule: adopt_adopt_list.induct)
  case (1 e ks s)
  then show ?case by (simp add: Let_def same_timers_def)
next
  case (2 s)
  then show ?case by simp
next
  case (3 k ks s)
  then show ?case by (simp add: Let_def same_timers_def)
qed

lemma prefixId_timers [simp]: "same_timers (prefixId r s) s"
  by (simp add: prefixId_def split: option.split)

lemma afterText_timers [simp]: "same_timers (state_of (afterText env k pe pi c s)) s"
proof -
  let ?p = "adopt_list (normalizeRelativeURLs env (targetUrl k) (parseFromString env c)) s"
  let ?s1 = "fold prefixId (forest_refs (fst ?p)) (snd ?p)"
  have "same_timers ?s1 (snd ?p)" by (rule fold_same_timers) simp
  then have a: "same_timers ?s1 s" by (rule same_timers_trans) (rule adopt_timers)
  have "\<And>ks. same_timers (state_of (finish env k pe pi ks ?s1)) s"
    by (rule same_timers_trans[OF finish_timers a])
  then show ?thesis
    unfolding afterText_def Let_def using a by simp
qed

lemma onNav_timers [simp]: "same_timers (onNav s) s"
  unfolding onNav_def
  by (rule fold_same_timers) (simp add: setLeaveListener_def setEnterListener_def)

lemma linkCleanup_timers [simp]: "same_timers (linkCleanup l s) s"
  by (simp add: linkCleanup_def setLeaveListener_def setEnterListener_def)

lemma removePopover_timers [simp]: "same_timers (removePopover p s) s"
proof -
  have "\<And>ls. same_timers (fold (setEnterListener False) ls s) s"
    by (rule fold_same_timers) (simp add: setEnterListener_def)
  then show ?thesis
    by (simp add: removePopover_def Let_def split: option.split)
qed

lemma timers_inv_same: "same_timers s' s \<Longrightarrow> timers_inv s \<Longrightarrow> timers_inv s'"
  by (simp add: same_timers_def timers_inv_def)

lemma map_get_set: "map_get (map_set k v m) k' = (if k' = k then Some v else map_get m k')"
  by (induction m) (auto simp: map_get_def)

lemma map_get_delete: "map_get (map_delete k m) k' = (if k' = k then None else map_get m k')"
  by (induction m) (auto simp: map_get_def map_delete_def)

lemma map_get_filter_key:
  "map_get (filter (\<lambda>e. P (fst e)) m) k = (if P k then map_get m k else None)"
  by (induction m) (auto simp: map_get_def)

lemma map_get_mem: "map_get m k = Some v \<Longrightarrow> (k, v) \<in> set m"
  by (simp add: map_get_def map_of_SomeD)

lemma set_map_set: "(a, b) \<in> set (map_set k v m) \<Longrightarrow> (a, b) = (k, v) \<or> (a, b) \<in> set m"
  by (induction m) (auto split: if_splits)

lemma timers_inv_schedule:
  assumes inv: "timers_inv s"
  shows "timers_inv (scheduleHideAtDepth d s)"
proof -
  let ?n = "nextTimer s"
  let ?keep = "\<lambda>e. map_get (hideTimeouts s) d \<noteq> Some (fst e)"
  have tm: "timers (scheduleHideAtDepth d s) = filter ?keep (timers s) @ [(?n, d)]"
    by (auto simp: scheduleHideAtDepth_def Let_def clearTimeout_def split: option.split
        intro!: filter_cong)
  have rg: "hideTimeouts (scheduleHideAtDepth d s) = map_set d ?n (hideTimeouts s)"
    by (simp add: scheduleHideAtDepth_def Let_def clearTimeout_def split: option.split)
  have nt: "nextTimer (scheduleHideAtDepth d s) = Suc ?n"
    by (simp add: scheduleHideAtDepth_def Let_def clearTimeout_def split: option.split)
  from inv have i1: "\<And>t d'. (t, d') \<in> set (timers s) \<Longrightarrow> map_get (hideTimeouts s) d' = Some t \<and> t < ?n"
    and i2: "distinct (map fst (timers s))"
    and i3: "\<And>d' t. (d', t) \<in> set (hideTimeouts s) \<Longrightarrow> t < ?n"
    and i4: "\<And>d' t d''. (d', t) \<in> set (hideTimeouts s) \<Longrightarrow> (t, d'') \<in> set (timers s) \<Longrightarrow> d'' = d'"
    by (auto simp: timers_inv_def)
  have a: "map_get (map_set d ?n (hideTimeouts s)) d' = Some t \<and> t < Suc ?n"
    if "(t, d') \<in> set (filter ?keep (timers s) @ [(?n, d)])" for t d'
  proof (cases "(t, d') = (?n, d)")
    case True
    then show ?thesis by (simp add: map_get_set)
  next
    case False
    with that have m: "(t, d') \<in> set (timers s)" and k: "map_get (hideTimeouts s) d \<noteq> Some t" by auto
    from i1[OF m] k have "d' \<noteq> d" by auto
    with i1[OF m] show ?thesis by (simp add: map_get_set)
  qed
  have lt: "\<And>t d'. (t, d') \<in> set (timers s) \<Longrightarrow> t < ?n" using i1 by blast
  have nn: "?n \<notin> fst ` set (timers s)" by (auto dest: lt)
  have b: "distinct (map fst (filter ?keep (timers s) @ [(?n, d)]))"
    using i2 nn by (auto simp: distinct_map_filter)
  have c: "t < Suc ?n \<and> (\<forall>d''. (t, d'') \<in> set (filter ?keep (timers s) @ [(?n, d)]) \<longrightarrow> d'' = d')"
    if "(d', t) \<in> set (map_set d ?n (hideTimeouts s))" for d' t
  proof (cases "(d', t) = (d, ?n)")
    case True
    then show ?thesis using i1 by auto
  next
    case False
    with set_map_set[OF that] have m: "(d', t) \<in> set (hideTimeouts s)" by auto
    from i3[OF m] i4[OF m] show ?thesis by auto
  qed
  show ?thesis
    unfolding timers_inv_def tm rg nt using a b c by blast
qed

lemma timers_inv_cancel:
  assumes inv: "timers_inv s"
  shows "timers_inv (cancelHideTimeoutsFromDepth d s)"
    and "timers (cancelHideTimeoutsFromDepth d s) = filter (\<lambda>e. \<not> js_ge (snd e) d) (timers s)"
proof -
  from inv have i1: "\<And>t d'. (t, d') \<in> set (timers s) \<Longrightarrow> map_get (hideTimeouts s) d' = Some t \<and> t < nextTimer s"
    and i2: "distinct (map fst (timers s))"
    and i3: "\<And>d' t. (d', t) \<in> set (hideTimeouts s) \<Longrightarrow> t < nextTimer s"
    and i4: "\<And>d' t d''. (d', t) \<in> set (hideTimeouts s) \<Longrightarrow> (t, d'') \<in> set (timers s) \<Longrightarrow> d'' = d'"
    by (auto simp: timers_inv_def)
  have h: "hideTimeouts (cancelHideTimeoutsFromDepth d s) = filter (\<lambda>e. \<not> js_ge (fst e) d) (hideTimeouts s)"
    by (rule cancel_hideTimeouts)
  have flt: "\<And>k. map_get (filter (\<lambda>e. \<not> js_ge (fst e) d) (hideTimeouts s)) k =
      (if \<not> js_ge k d then map_get (hideTimeouts s) k else None)"
    by (rule map_get_filter_key[where P = "\<lambda>k. \<not> js_ge k d"])
  show t: "timers (cancelHideTimeoutsFromDepth d s) = filter (\<lambda>e. \<not> js_ge (snd e) d) (timers s)"
    unfolding cancel_timers
  proof (rule filter_cong[OF refl])
    fix e assume e: "e \<in> set (timers s)"
    obtain t d' where td: "e = (t, d')" by (cases e)
    have m: "(t, d') \<in> set (timers s)" using e td by simp
    have r: "(d', t) \<in> set (hideTimeouts s)" using i1[OF m] by (auto intro: map_get_mem)
    have "(\<exists>x\<in>set (hideTimeouts s). js_ge (fst x) d \<and> snd x = t) = js_ge d' d"
    proof
      assume "\<exists>x\<in>set (hideTimeouts s). js_ge (fst x) d \<and> snd x = t"
      then obtain d'' where x: "(d'', t) \<in> set (hideTimeouts s)" "js_ge d'' d" by force
      from i4[OF x(1) m] x(2) show "js_ge d' d" by simp
    next
      assume "js_ge d' d"
      with r show "\<exists>x\<in>set (hideTimeouts s). js_ge (fst x) d \<and> snd x = t" by force
    qed
    then show "(\<not> (\<exists>x\<in>set (hideTimeouts s). js_ge (fst x) d \<and> snd x = fst e)) = (\<not> js_ge (snd e) d)"
      by (simp add: td)
  qed
  have a: "map_get (filter (\<lambda>e. \<not> js_ge (fst e) d) (hideTimeouts s)) d' = Some t \<and> t < nextTimer s"
    if "(t, d') \<in> set (filter (\<lambda>e. \<not> js_ge (snd e) d) (timers s))" for t d'
  proof -
    from that have m: "(t, d') \<in> set (timers s)" and g: "\<not> js_ge d' d" by auto
    from i1[OF m] g show ?thesis by (simp add: flt)
  qed
  have b: "distinct (map fst (filter (\<lambda>e. \<not> js_ge (snd e) d) (timers s)))"
    using i2 by (simp add: distinct_map_filter)
  have c: "t < nextTimer s \<and> (\<forall>d''. (t, d'') \<in> set (filter (\<lambda>e. \<not> js_ge (snd e) d) (timers s)) \<longrightarrow> d'' = d')"
    if "(d', t) \<in> set (filter (\<lambda>e. \<not> js_ge (fst e) d) (hideTimeouts s))" for d' t
  proof -
    from that have m: "(d', t) \<in> set (hideTimeouts s)" by simp
    from i3[OF m] i4[OF m] show ?thesis by auto
  qed
  have nt: "nextTimer (cancelHideTimeoutsFromDepth d s) = nextTimer s" by simp
  show "timers_inv (cancelHideTimeoutsFromDepth d s)"
    unfolding timers_inv_def t h nt using a b c by blast
qed

lemma timers_inv_fire:
  assumes "timers_inv s" "(t, d) \<in> set (timers s)"
  shows "timers_inv (state_of (timerFires t d s))"
proof -
  let ?s0 = "clearTimeout t s"
  from assms(1) have i1: "\<And>t d'. (t, d') \<in> set (timers s) \<Longrightarrow> map_get (hideTimeouts s) d' = Some t \<and> t < nextTimer s"
    and i2: "distinct (map fst (timers s))"
    and i3: "\<And>d' t. (d', t) \<in> set (hideTimeouts s) \<Longrightarrow> t < nextTimer s"
    and i4: "\<And>d' t d''. (d', t) \<in> set (hideTimeouts s) \<Longrightarrow> (t, d'') \<in> set (timers s) \<Longrightarrow> d'' = d'"
    by (auto simp: timers_inv_def)
  have st: "same_timers (state_of (clearDeeperPopovers d ?s0)) ?s0" by simp
  have inv0: "timers_inv ?s0"
    unfolding timers_inv_def using i1 i2 i3 i4
    by (auto simp: clearTimeout_def distinct_map_filter)
  have nod: "d' \<noteq> d" if "(t', d') \<in> set (timers ?s0)" for t' d'
  proof
    assume "d' = d"
    from that have m: "(t', d') \<in> set (timers s)" and ne: "t' \<noteq> t"
      by (auto simp: clearTimeout_def)
    from i1[OF m] i1[OF assms(2)] \<open>d' = d\<close> ne show False by simp
  qed
  show ?thesis
  proof (cases "clearDeeperPopovers d ?s0")
    case (Threw e s1)
    then show ?thesis using st inv0 by (auto simp: timerFires_def intro: timers_inv_same)
  next
    case (Returned s1)
    then have s1: "same_timers s1 ?s0" using st by simp
    then have inv1: "timers_inv s1" using inv0 by (rule timers_inv_same)
    have tm: "timers s1 = timers ?s0" using s1 by (simp add: same_timers_def)
    have sub: "\<And>e. e \<in> set (map_delete d (hideTimeouts s1)) \<Longrightarrow> e \<in> set (hideTimeouts s1)"
      by (simp add: map_delete_def)
    have "timers_inv (s1\<lparr>hideTimeouts := map_delete d (hideTimeouts s1)\<rparr>)"
      unfolding timers_inv_def using inv1 nod tm
      by (auto simp: timers_inv_def map_get_delete dest!: sub)
    then show ?thesis using Returned by (simp add: timerFires_def)
  qed
qed

lemma fold_clearTimeout_timers:
  "timers (fold (\<lambda>e. clearTimeout (snd e)) es s) = filter (\<lambda>e. fst e \<notin> snd ` set es) (timers s)"
  by (induction es arbitrary: s) (auto simp: clearTimeout_def intro!: filter_cong)


lemma teardown_timers:
  assumes "timers_inv s"
  shows "timers (teardown s) = [] \<and> hideTimeouts (teardown s) = []"
proof -
  let ?s1 = "fold removePopover (querySelectorAll_class (doc s) (heap s) ''popover'') s"
  have st: "same_timers ?s1 s" by (rule fold_same_timers) simp
  have "\<forall>e \<in> set (timers s). fst e \<in> snd ` set (hideTimeouts s)"
  proof
    fix e assume e: "e \<in> set (timers s)"
    obtain t d where td: "e = (t, d)" by (cases e)
    from assms e td have "map_get (hideTimeouts s) d = Some t" by (simp add: timers_inv_def)
    then have "(d, t) \<in> set (hideTimeouts s)" by (rule map_get_mem)
    then show "fst e \<in> snd ` set (hideTimeouts s)" using td by force
  qed
  then have "filter (\<lambda>e. fst e \<notin> snd ` set (hideTimeouts s)) (timers s) = []"
    by (auto simp: filter_empty_conv)
  then show ?thesis using st
    by (simp add: teardown_def Let_def fold_clearTimeout_timers same_timers_def)
qed

lemma timers_inv_teardown: "timers_inv s \<Longrightarrow> timers_inv (teardown s)"
  using teardown_timers[of s] by (simp add: timers_inv_def)

lemma timers_inv_enter: "timers_inv s \<Longrightarrow> timers_inv (outcome_state (mouseEnterHandler env l x y s))"
proof -
  assume inv: "timers_inv s"
  let ?s = "s\<lparr>activeAnchor := Some l\<rparr>"
  let ?d = "getCurrentPopoverDepth ?s l"
  let ?s1 = "cancelHideTimeoutsFromDepth ?d ?s"
  have "timers_inv ?s" using inv by (simp add: timers_inv_def)
  then have i1: "timers_inv ?s1" by (rule timers_inv_cancel(1))
  have a0: "\<And>k pe. timers_inv (state_of (showPopover env k None pe ?d ?s1))"
    by (rule timers_inv_same[OF showPopover_timers i1])
  have a: "\<And>k pe e s2. showPopover env k None pe ?d ?s1 = Threw e s2 \<Longrightarrow> timers_inv s2"
    using a0 by (metis state_of.simps(2))
  have b: "\<And>k pe s2. showPopover env k None pe ?d ?s1 = Returned s2 \<Longrightarrow>
     timers_inv (attachPopoverListeners pe s2)"
    using a0 by (metis attach_timers state_of.simps(1) timers_inv_same)
  have c: "\<And>s2 tr. timers_inv s2 \<Longrightarrow> timers_inv (s2\<lparr>trace := tr\<rparr>)"
    by (simp add: timers_inv_def)
  show ?thesis
    unfolding mouseEnterHandler_def Let_def
    using \<open>timers_inv ?s\<close> i1 a b c
    by (auto split: option.split result.split)
qed

lemma timers_inv_popoverLeave: "timers_inv s \<Longrightarrow> timers_inv (state_of (popoverLeave pe rt s))"
  unfolding popoverLeave_def Let_def
  by (auto split: option.split intro: timers_inv_schedule timers_inv_same[OF clearDeeper_timers])

lemma timers_inv_initial: "initial s \<Longrightarrow> timers_inv s"
  by (simp add: initial_def timers_inv_def)

lemma reachable_timers_inv: "reachable env s \<Longrightarrow> timers_inv s"
proof (induction rule: reachable.induct)
  case (r_init s) then show ?case by (auto intro: timers_inv_initial)
next
  case (r_enter s l x y) then show ?case by (simp add: timers_inv_enter)
next
  case (r_fetched s k resp) then show ?case by (auto intro: timers_inv_same[OF afterFetch_timers])
next
  case (r_text s k pe pi contents) then show ?case by (auto intro: timers_inv_same[OF afterText_timers])
next
  case (r_popoverEnter s pe) then show ?case by (simp add: popoverEnter_def timers_inv_cancel(1))
next
  case (r_popoverLeave s pe rt) then show ?case by (auto intro: timers_inv_popoverLeave)
next
  case (r_linkLeave s l rt) then show ?case
    by (auto simp: handleLinkLeave_def split: option.split intro: timers_inv_schedule)
next
  case (r_timer s t d) then show ?case by (simp add: timers_inv_fire)
next
  case (r_nav s) then show ?case by (auto intro: timers_inv_same[OF onNav_timers])
next
  case (r_linkCleanup s l) then show ?case by (auto intro: timers_inv_same[OF linkCleanup_timers])
next
  case (r_teardown s) then show ?case by (auto intro: timers_inv_teardown)
qed

lemma forest_refs_Cons [simp]: "forest_refs (Dom x ks # rest) = x # forest_refs ks @ forest_refs rest"
  by (simp add: forest_refs_def)

lemma forest_refs_Nil [simp]: "forest_refs [] = []"
  by (simp add: forest_refs_def)

lemma forest_refs_append [simp]: "forest_refs (a @ b) = forest_refs a @ forest_refs b"
  by (simp add: forest_refs_def)

lemma remove_in_refs: "set (forest_refs (remove_in r d)) \<subseteq> set (forest_refs d) - {r}"
  by (induction r d rule: remove_in.induct) auto








lemma getCurrentPopoverDepth_anchor [simp]:
  "getCurrentPopoverDepth (s\<lparr>activeAnchor := a\<rparr>) l = getCurrentPopoverDepth s l"
  by (simp add: getCurrentPopoverDepth_def)

text \<open>
  C5. A pointer entering a link whose computed depth is at least
  \<^verbatim>\<open>MAX_POPOVER_DEPTH\<close> makes the handler return at once: it does not wait for a
  fetch (the outcome is \<open>Finished\<close> and the trace is unchanged), creates no element
  (document, heap and allocation counter unchanged) and leaves the depth stack as it
  was.
\<close>

theorem max_depth_creates_no_popover:
  assumes "js_ge (getCurrentPopoverDepth s l) MAX_POPOVER_DEPTH"
  shows "\<exists>s'. mouseEnterHandler env l x y s = Finished (Returned s')
    \<and> doc s' = doc s \<and> heap s' = heap s \<and> nextRef s' = nextRef s
    \<and> activePopoverStack s' = activePopoverStack s \<and> trace s' = trace s"
  using assms by (simp add: mouseEnterHandler_def Let_def)

theorem max_depth_creates_no_popover_witness:
  "js_ge (getCurrentPopoverDepth deep_page 3) MAX_POPOVER_DEPTH
   \<and> (\<exists>s'. mouseEnterHandler env0 3 10 20 deep_page = Finished (Returned s')
    \<and> doc s' = doc deep_page \<and> heap s' = heap deep_page \<and> nextRef s' = nextRef deep_page
    \<and> activePopoverStack s' = activePopoverStack deep_page \<and> trace s' = trace deep_page)"
proof -
  have h: "js_ge (getCurrentPopoverDepth deep_page 3) MAX_POPOVER_DEPTH"
    by code_simp
  show ?thesis using h max_depth_creates_no_popover[OF h, of env0 10 20] by simp
qed

lemma at_most_one_by_id:
  "distinct (map fst xs) \<Longrightarrow> list_all (\<lambda>e. snd e = d \<longrightarrow> fst e = t) xs \<Longrightarrow>
   length (filter (\<lambda>e. snd e = d) xs) \<le> 1"
proof (induction xs)
  case Nil then show ?case by simp
next
  case (Cons x xs)
  show ?case
  proof (cases "snd x = d")
    case False
    with Cons show ?thesis by simp
  next
    case True
    with Cons.prems have fx: "fst x = t" by simp
    have "filter (\<lambda>e. snd e = d) xs = []"
    proof (rule ccontr)
      assume "filter (\<lambda>e. snd e = d) xs \<noteq> []"
      then obtain e where e: "e \<in> set xs" "snd e = d"
        by (auto simp: filter_empty_conv)
      with Cons.prems(2) have "fst e = t" by (auto simp: list_all_iff)
      with fx e(1) Cons.prems(1) show False by (force simp: image_iff)
    qed
    with True show ?thesis by simp
  qed
qed

lemma timers_inv_one_per_depth:
  assumes "timers_inv s"
  shows "length (filter (\<lambda>e. snd e = d) (timers s)) \<le> 1"
proof (cases "map_get (hideTimeouts s) d")
  case None
  have "filter (\<lambda>e. snd e = d) (timers s) = []"
  proof (rule ccontr)
    assume "filter (\<lambda>e. snd e = d) (timers s) \<noteq> []"
    then obtain t where "(t, d) \<in> set (timers s)" by (force simp: filter_empty_conv)
    with assms have "map_get (hideTimeouts s) d = Some t" by (simp add: timers_inv_def)
    with None show False by simp
  qed
  then show ?thesis by simp
next
  case (Some t)
  have "list_all (\<lambda>e. snd e = d \<longrightarrow> fst e = t) (timers s)"
    unfolding list_all_iff
  proof (intro ballI impI)
    fix e assume e: "e \<in> set (timers s)" "snd e = d"
    then have "(fst e, d) \<in> set (timers s)" by (cases e) auto
    with assms have "map_get (hideTimeouts s) d = Some (fst e)" by (simp add: timers_inv_def)
    with Some show "fst e = t" by simp
  qed
  moreover have "distinct (map fst (timers s))" using assms by (simp add: timers_inv_def)
  ultimately show ?thesis by (intro at_most_one_by_id[where t = t])
qed

lemma schedule_timers:
  assumes inv: "timers_inv s"
  shows "filter (\<lambda>e. snd e = d) (timers (scheduleHideAtDepth d s)) = [(nextTimer s, d)]"
    and "map_get (hideTimeouts (scheduleHideAtDepth d s)) d = Some (nextTimer s)"
    and "map_get (hideTimeouts s) d = Some old \<Longrightarrow> old \<notin> fst ` set (timers (scheduleHideAtDepth d s))"
proof -
  let ?n = "nextTimer s"
  let ?keep = "\<lambda>e. map_get (hideTimeouts s) d \<noteq> Some (fst e)"
  have tm: "timers (scheduleHideAtDepth d s) = filter ?keep (timers s) @ [(?n, d)]"
    by (auto simp: scheduleHideAtDepth_def Let_def clearTimeout_def split: option.split
        intro!: filter_cong)
  from inv have i1: "\<And>t d'. (t, d') \<in> set (timers s) \<Longrightarrow> map_get (hideTimeouts s) d' = Some t \<and> t < ?n"
    and i3: "\<And>d' t. (d', t) \<in> set (hideTimeouts s) \<Longrightarrow> t < ?n"
    by (auto simp: timers_inv_def)
  have "filter (\<lambda>e. snd e = d) (filter ?keep (timers s)) = []"
  proof (rule ccontr)
    assume "filter (\<lambda>e. snd e = d) (filter ?keep (timers s)) \<noteq> []"
    then obtain t where t: "(t, d) \<in> set (timers s)" "map_get (hideTimeouts s) d \<noteq> Some t"
      by (force simp: filter_empty_conv)
    with i1[OF t(1)] show False by simp
  qed
  then show "filter (\<lambda>e. snd e = d) (timers (scheduleHideAtDepth d s)) = [(nextTimer s, d)]"
    unfolding tm by simp
  show "map_get (hideTimeouts (scheduleHideAtDepth d s)) d = Some (nextTimer s)"
    by (simp add: scheduleHideAtDepth_def Let_def clearTimeout_def map_get_set split: option.split)
  show "old \<notin> fst ` set (timers (scheduleHideAtDepth d s))" if o: "map_get (hideTimeouts s) d = Some old"
  proof -
    have "old < ?n" using i3[OF map_get_mem[OF o]] .
    then show ?thesis unfolding tm using o by auto
  qed
qed

lemma clearDeeper_returns:
  "0 \<le> k \<Longrightarrow> k < 4294967296 \<Longrightarrow> \<exists>s1. clearDeeperPopovers (Num k) s = Returned s1"
  by (simp add: clearDeeperPopovers_def Let_def set_length_def)

lemma fire_unregisters:
  assumes "0 \<le> k" "k < 4294967296"
  shows "map_get (hideTimeouts (state_of (timerFires t (Num k) s))) (Num k) = None
     \<and> t \<notin> fst ` set (timers (state_of (timerFires t (Num k) s)))"
proof -
  obtain s1 where s1: "clearDeeperPopovers (Num k) (clearTimeout t s) = Returned s1"
    using clearDeeper_returns[OF assms] by blast
  have "same_timers (state_of (clearDeeperPopovers (Num k) (clearTimeout t s))) (clearTimeout t s)"
    by simp
  with s1 have "timers s1 = filter (\<lambda>e. fst e \<noteq> t) (timers s)"
    by (simp add: same_timers_def clearTimeout_def)
  with s1 show ?thesis
    by (auto simp: timerFires_def map_get_delete)
qed

text \<open>
  C8. In every state the script can reach, at most one hide timer is pending for a
  depth. Scheduling a hide at a depth removes the timer registered there from the
  browser's table (it can no longer fire), leaves exactly the new timer pending at that
  depth and registers it; a timer that fires at a depth that is a valid array length
  is gone from the table and from the registry afterwards.
\<close>

theorem one_hide_timer_per_depth:
  assumes "reachable env s"
  shows "length (filter (\<lambda>e. snd e = d) (timers s)) \<le> 1
    \<and> (\<forall>old. map_get (hideTimeouts s) d = Some old \<longrightarrow>
          old \<notin> fst ` set (timers (scheduleHideAtDepth d s)))
    \<and> filter (\<lambda>e. snd e = d) (timers (scheduleHideAtDepth d s)) = [(nextTimer s, d)]
    \<and> map_get (hideTimeouts (scheduleHideAtDepth d s)) d = Some (nextTimer s)
    \<and> (\<forall>t k. (t, Num k) \<in> set (timers s) \<and> 0 \<le> k \<and> k < 4294967296 \<longrightarrow>
          map_get (hideTimeouts (state_of (timerFires t (Num k) s))) (Num k) = None
          \<and> t \<notin> fst ` set (timers (state_of (timerFires t (Num k) s))))"
proof -
  have inv: "timers_inv s" using assms by (rule reachable_timers_inv)
  show ?thesis
    using timers_inv_one_per_depth[OF inv, of d] schedule_timers[OF inv, of d] fire_unregisters
    by blast
qed

lemma waiting_page_reachable: "reachable env0 waiting_page"
  unfolding waiting_page_def
  by (rule r_popoverLeave, rule r_init) (simp add: initial_def deep_page_def)

theorem one_hide_timer_per_depth_witness:
  "reachable env0 waiting_page
   \<and> timers waiting_page = [(0, Num 3)]
   \<and> map_get (hideTimeouts waiting_page) (Num 3) = Some 0
   \<and> length (filter (\<lambda>e. snd e = Num 3) (timers waiting_page)) \<le> 1
   \<and> 0 \<notin> fst ` set (timers (scheduleHideAtDepth (Num 3) waiting_page))
   \<and> filter (\<lambda>e. snd e = Num 3) (timers (scheduleHideAtDepth (Num 3) waiting_page)) = [(1, Num 3)]
   \<and> map_get (hideTimeouts (scheduleHideAtDepth (Num 3) waiting_page)) (Num 3) = Some 1
   \<and> map_get (hideTimeouts (state_of (timerFires 0 (Num 3) waiting_page))) (Num 3) = None
   \<and> 0 \<notin> fst ` set (timers (state_of (timerFires 0 (Num 3) waiting_page)))"
proof -
  have r: "reachable env0 waiting_page" by (rule waiting_page_reachable)
  have t: "timers waiting_page = [(0, Num 3)]" unfolding waiting_page_def by code_simp
  have m: "map_get (hideTimeouts waiting_page) (Num 3) = Some 0" unfolding waiting_page_def by code_simp
  have n: "nextTimer waiting_page = 1" unfolding waiting_page_def by code_simp
  show ?thesis
    using r t m n one_hide_timer_per_depth[OF r, of "Num 3"] by simp
qed


lemma untouchedI:
  assumes "activePopoverStack s' = activePopoverStack s" "activeAnchor s' = activeAnchor s"
    "hideTimeouts s' = hideTimeouts s" "timers s' = timers s"
    "popoverListenersAttached s' = popoverListenersAttached s" "nextRef s \<le> nextRef s'"
    "\<And>r. r < nextRef s \<Longrightarrow> heap s' r = heap s r"
  shows "untouched s' s"
  using assms by (simp add: untouched_def list_all_iff)

lemma untouched_heap: "untouched s' s \<Longrightarrow> r < nextRef s \<Longrightarrow> heap s' r = heap s r"
  by (simp add: untouched_def list_all_iff)

lemma untouched_refl [simp]: "untouched s s"
  by (simp add: untouched_def list_all_iff)

lemma untouched_trans: "untouched s2 s1 \<Longrightarrow> untouched s1 s \<Longrightarrow> untouched s2 s"
  by (auto simp: untouched_def list_all_iff)

lemma untouched_doc [simp]: "untouched (s'\<lparr>doc := d\<rparr>) s = untouched s' s"
  by (simp add: untouched_def)

lemma untouched_createElement: "untouched (snd (createElement e s)) s"
  by (simp add: createElement_def untouched_def list_all_iff)

lemma doc_createElement [simp]: "doc (snd (createElement e s)) = doc s"
  by (simp add: createElement_def)

lemma adopt_untouched:
  "untouched (snd (adopt h s)) s \<and> doc (snd (adopt h s)) = doc s"
  "untouched (snd (adopt_list hs s)) s \<and> doc (snd (adopt_list hs s)) = doc s"
proof (induction h s and hs s rule: adopt_adopt_list.induct)
  case (1 e ks s)
  let ?s1 = "s\<lparr>heap := (heap s)(nextRef s := e), nextRef := Suc (nextRef s)\<rparr>"
  have "untouched ?s1 s" by (simp add: untouched_def list_all_iff)
  with 1 show ?case by (auto simp: Let_def intro: untouched_trans)
next
  case (2 s)
  then show ?case by simp
next
  case (3 k ks s)
  then show ?case by (auto simp: Let_def intro: untouched_trans)
qed

lemma adopt_refs:
  "list_all (\<lambda>r. nextRef s \<le> r \<and> r < nextRef (snd (adopt h s))) (refs_of (fst (adopt h s)))
     \<and> nextRef s \<le> nextRef (snd (adopt h s))"
  "list_all (\<lambda>r. nextRef s \<le> r \<and> r < nextRef (snd (adopt_list hs s))) (forest_refs (fst (adopt_list hs s)))
     \<and> nextRef s \<le> nextRef (snd (adopt_list hs s))"
proof (induction h s and hs s rule: adopt_adopt_list.induct)
  case (1 e ks s)
  let ?s1 = "s\<lparr>heap := (heap s)(nextRef s := e), nextRef := Suc (nextRef s)\<rparr>"
  have ih: "list_all (\<lambda>r. nextRef ?s1 \<le> r \<and> r < nextRef (snd (adopt_list ks ?s1)))
      (forest_refs (fst (adopt_list ks ?s1))) \<and> nextRef ?s1 \<le> nextRef (snd (adopt_list ks ?s1))"
    by (rule 1[OF refl refl])
  have eq: "adopt (Html e ks) s = (Dom (nextRef s) (fst (adopt_list ks ?s1)), snd (adopt_list ks ?s1))"
    by (simp add: Let_def)
  show ?case unfolding eq using ih
    by (force simp: list_all_iff forest_refs_def dest: Suc_leD)
next
  case (2 s)
  then show ?case by simp
next
  case (3 k ks s)
  let ?s1 = "snd (adopt k s)"
  have ih1: "list_all (\<lambda>r. nextRef s \<le> r \<and> r < nextRef ?s1) (refs_of (fst (adopt k s)))
      \<and> nextRef s \<le> nextRef ?s1"
    by (rule 3(1))
  have ih2: "list_all (\<lambda>r. nextRef ?s1 \<le> r \<and> r < nextRef (snd (adopt_list ks ?s1)))
      (forest_refs (fst (adopt_list ks ?s1))) \<and> nextRef ?s1 \<le> nextRef (snd (adopt_list ks ?s1))"
    by (rule 3(2)[OF refl])
  have eq: "adopt_list (k # ks) s = (fst (adopt k s) # fst (adopt_list ks ?s1), snd (adopt_list ks ?s1))"
    by (simp add: Let_def)
  have fr: "forest_refs (fst (adopt k s) # fst (adopt_list ks ?s1)) =
      refs_of (fst (adopt k s)) @ forest_refs (fst (adopt_list ks ?s1))"
    by (simp add: forest_refs_def)
  show ?case unfolding eq fst_conv snd_conv fr using ih1 ih2
    by (auto simp: list_all_iff)
qed

lemma fold_prefixId_untouched:
  "list_all (\<lambda>r. n \<le> r) rs \<Longrightarrow> nextRef s = m \<Longrightarrow>
   doc (fold prefixId rs s) = doc s \<and> activePopoverStack (fold prefixId rs s) = activePopoverStack s
   \<and> activeAnchor (fold prefixId rs s) = activeAnchor s
   \<and> hideTimeouts (fold prefixId rs s) = hideTimeouts s \<and> timers (fold prefixId rs s) = timers s
   \<and> popoverListenersAttached (fold prefixId rs s) = popoverListenersAttached s
   \<and> nextRef (fold prefixId rs s) = m
   \<and> (\<forall>r. r < n \<longrightarrow> heap (fold prefixId rs s) r = heap s r)"
proof (induction rs arbitrary: s)
  case Nil
  then show ?case by simp
next
  case (Cons a rs)
  have a: "n \<le> a" and rs: "list_all (\<lambda>r. n \<le> r) rs" using Cons.prems by simp_all
  have m: "nextRef (prefixId a s) = m" using Cons.prems by (simp add: prefixId_def split: option.split)
  show ?case using Cons.IH[OF rs m] a
    by (auto simp: prefixId_def split: option.split)
qed

lemma getElementById_cong:
  "list_all (\<lambda>r. h' r = h r) (forest_refs d) \<Longrightarrow> getElementById d h' i = getElementById d h i"
  unfolding getElementById_def
  by (rule find_cong) (auto simp: list_all_iff)

lemma getElementById_untouched:
  "fresh s \<Longrightarrow> untouched s' s \<Longrightarrow> doc s' = doc s \<Longrightarrow>
   getElementById (doc s') (heap s') i = getElementById (doc s) (heap s) i"
  by (auto intro!: getElementById_cong simp: fresh_def list_all_iff untouched_heap)

lemma finish_existing:
  "getElementById (doc s) (heap s) (popoverId k) \<noteq> None \<Longrightarrow> finish env k pe pi ks s = Returned s"
  by (auto simp: finish_def)


lemma afterFetch_eq:
  "afterFetch env k (Some r) s =
     (case contentTypeHeader r of
        None \<Rightarrow> Finished (Threw TypeError s)
      | Some header \<Rightarrow>
          (let ct = splitFirst CHR '';'' header; s2 = shell k ct s
           in if splitFirst CHR ''/'' ct = ''image'' then
                Finished (finish env k (nextRef s) (Suc (nextRef s)) [Dom (Suc (Suc (nextRef s))) []]
                  (snd (createElement ((blank ''img'')\<lparr>src := url_toString (targetUrl k),
                               alt := pathname (targetUrl k)\<rparr>) s2)))
              else if splitFirst CHR ''/'' ct = ''application'' then
                (if splitSecond CHR ''/'' ct = Some ''pdf'' then
                   Finished (finish env k (nextRef s) (Suc (nextRef s)) [Dom (Suc (Suc (nextRef s))) []]
                     (snd (createElement ((blank ''iframe'')\<lparr>src := url_toString (targetUrl k)\<rparr>) s2)))
                 else Finished (finish env k (nextRef s) (Suc (nextRef s)) [] s2))
              else Await (k, nextRef s, Suc (nextRef s), body r) s2))"
  by (simp add: afterFetch_def Let_def split_beta shell_def createElement_def split: option.split)

lemma shell_untouched: "untouched (shell k ct s) s"
  unfolding shell_def by (rule untouched_trans[OF untouched_createElement untouched_createElement])

lemma shell_props [simp]:
  "doc (shell k ct s) = doc s"
  "nextRef (shell k ct s) = Suc (Suc (nextRef s))"
  "trace (shell k ct s) = trace s"
  "classList (heap (shell k ct s) (nextRef s)) = [''popover'']"
  "ident (heap (shell k ct s) (nextRef s)) = Some (popoverId k)"
  by (simp_all add: shell_def createElement_def blank_def)

lemma child_untouched: "untouched (snd (createElement e (shell k ct s))) s"
  by (rule untouched_trans[OF untouched_createElement shell_untouched])

lemma child_props [simp]:
  "classList (heap (snd (createElement e (shell k ct s))) (nextRef s)) = [''popover'']"
  "trace (snd (createElement e s)) = trace s"
  by (simp_all add: createElement_def)

lemma afterFetch_existing:
  assumes "fresh s" "getElementById (doc s) (heap s) (popoverId k) \<noteq> None"
  shows "untouched (outcome_state (afterFetch env k resp s)) s
     \<and> doc (outcome_state (afterFetch env k resp s)) = doc s"
proof (cases resp)
  case None
  then show ?thesis by (simp add: afterFetch_def untouched_def list_all_iff)
next
  case (Some r)
  have ex: "finish env k pe pi ks s' = Returned s'" if "untouched s' s" "doc s' = doc s" for pe pi ks s'
    using assms getElementById_untouched[OF assms(1) that] by (simp add: finish_existing)
  have f2: "finish env k pe pi ks (shell k ct s) = Returned (shell k ct s)" for pe pi ks ct
    by (rule ex[OF shell_untouched]) simp
  have f3: "finish env k pe pi ks (snd (createElement e (shell k ct s)))
      = Returned (snd (createElement e (shell k ct s)))" for pe pi ks ct e
    by (rule ex[OF child_untouched]) simp
  show ?thesis
    unfolding Some afterFetch_eq
    by (simp add: Let_def f2 f3 shell_untouched child_untouched split: option.split)
qed


lemma afterText_eq:
  "afterText env k pe pi contents s =
     (let html = fst (parsedDoc env k contents s);
          s1 = prefixed env k contents s;
          elts = filter (hasClass (heap s1) ''popover-hint'') (forest_refs html)
      in if elts = [] then Returned s1
         else finish env k pe pi (snd (fold appendChild_move elts (html, []))) s1)"
  by (simp add: afterText_def parsedDoc_def prefixed_def Let_def)

lemma prefixed_untouched:
  "untouched (prefixed env k contents s) s \<and> doc (prefixed env k contents s) = doc s"
proof -
  let ?p = "parsedDoc env k contents s"
  have a: "untouched (snd ?p) s \<and> doc (snd ?p) = doc s"
    unfolding parsedDoc_def by (rule adopt_untouched)
  have r: "list_all (\<lambda>r. nextRef s \<le> r) (forest_refs (fst ?p))"
    using adopt_refs(2)[of s "normalizeRelativeURLs env (targetUrl k) (parseFromString env contents)"]
    by (auto simp: parsedDoc_def list_all_iff)
  have n: "nextRef s \<le> nextRef (snd ?p)" using a by (simp add: untouched_def)
  note f = fold_prefixId_untouched[OF r refl, of "snd ?p"]
  have "untouched (prefixed env k contents s) s"
    unfolding prefixed_def
    by (rule untouchedI) (use f n a in \<open>auto simp: untouched_def list_all_iff\<close>)
  then show ?thesis using a f by (auto simp: prefixed_def)
qed

lemma afterText_existing:
  assumes "fresh s" "getElementById (doc s) (heap s) (popoverId k) \<noteq> None"
  shows "untouched (state_of (afterText env k pe pi contents s)) s
     \<and> doc (state_of (afterText env k pe pi contents s)) = doc s"
proof -
  let ?s1 = "prefixed env k contents s"
  have u: "untouched ?s1 s" "doc ?s1 = doc s" using prefixed_untouched by auto
  have "finish env k pe pi ks ?s1 = Returned ?s1" for ks
    using assms getElementById_untouched[OF assms(1) u] by (simp add: finish_existing)
  then show ?thesis using u by (simp add: afterText_eq Let_def)
qed





lemma cycle_steps:
  "awaiting (mouseEnterHandler env_cycle 1 10 20 one_link) = Some hover_a
   \<and> awaiting (afterFetch env_cycle hover_a (Some (textHtml ''A''))
       (outcome_state (mouseEnterHandler env_cycle 1 10 20 one_link))) = Some (hover_a, 2, 3, ''A'')
   \<and> doc cycle1 = [Dom 1 [], Dom 2 [Dom 3 [Dom 4 [Dom 5 []]]]]
   \<and> activePopoverStack cycle1 = [Some 2]"
  unfolding cycle1_def by code_simp

lemma cycle_steps2:
  "awaiting (mouseEnterHandler env_cycle 5 30 40 cycle1) = Some hover_b
   \<and> awaiting (afterFetch env_cycle hover_b (Some (textHtml ''B''))
       (outcome_state (mouseEnterHandler env_cycle 5 30 40 cycle1))) = Some (hover_b, 6, 7, ''B'')
   \<and> doc cycle2 = [Dom 1 [], Dom 2 [Dom 3 [Dom 4 [Dom 5 []]]], Dom 6 [Dom 7 [Dom 8 [Dom 9 []]]]]
   \<and> activePopoverStack cycle2 = [Some 2, Some 6]"
  unfolding cycle2_def cycle1_def by code_simp

lemma cycle3_reachable: "reachable env_cycle cycle3"
  unfolding cycle3_def cycle2_def cycle1_def
  by (intro r_enter[where s = "state_of _"] r_text r_fetched[where s = "outcome_state _"]
        r_enter[where s = one_link] r_init)
     (simp add: initial_def one_link_def)

text \<open>
  C7 fails on a state the script reaches. On a site whose pages \<^verbatim>\<open>/a\<close> and \<^verbatim>\<open>/b\<close> link
  to each other, hovering the link to \<^verbatim>\<open>/a\<close>, then the link to \<^verbatim>\<open>/b\<close> inside its
  popover, then the link back to \<^verbatim>\<open>/a\<close> inside that one records the popover of \<^verbatim>\<open>/a\<close>
  (element 2) at depths 0 and 2. Clearing from depth 2, which is what the leave
  handler of that popover does when the pointer goes back to the popover of \<^verbatim>\<open>/b\<close>,
  keeps slots 0 and 1 of the stack but hides the popover recorded in slot 0, while the
  popover in slot 1 stays visible.
\<close>

theorem clearing_hides_a_shallower_popover:
  "activePopoverStack cycle3 = [Some 2, Some 6, Some 2]
   \<and> hasClass (heap cycle3) ''active-popover'' 2
   \<and> hasClass (heap cycle3) ''active-popover'' 6
   \<and> returned (clearDeeperPopovers (Num 2) cycle3)
   \<and> activePopoverStack (state_of (clearDeeperPopovers (Num 2) cycle3)) = [Some 2, Some 6]
   \<and> \<not> hasClass (heap (state_of (clearDeeperPopovers (Num 2) cycle3))) ''active-popover'' 2
   \<and> hasClass (heap (state_of (clearDeeperPopovers (Num 2) cycle3))) ''active-popover'' 6
   \<and> activePopoverStack (state_of (popoverLeave 2 (Some 7) cycle3)) = [Some 2, Some 6]
   \<and> \<not> hasClass (heap (state_of (popoverLeave 2 (Some 7) cycle3))) ''active-popover'' 2"
  unfolding cycle3_def cycle2_def cycle1_def by code_simp

text \<open>
  C4 holds of \<^verbatim>\<open>getPopoverDepth\<close> (the leave handler) and fails of the other two readers.
  With \<^verbatim>\<open>data-depth="abc"\<close> on the popover: \<^verbatim>\<open>getPopoverDepth\<close> gives 0, but
  \<^verbatim>\<open>getCurrentPopoverDepth\<close> gives \<open>NaN\<close> for the link inside (depth 0 for the popover
  would make it 1), the handler goes on to fetch, and activating the fetched popover
  throws \<^verbatim>\<open>RangeError\<close>; the popover's enter handler cancels no timer, where depth 0
  would cancel the one pending.
\<close>

theorem garbled_depth_is_not_zero:
  "depthAttr (heap garbled_page 1) = Some ''abc''
   \<and> getPopoverDepth (heap garbled_page) 1 = Num 0
   \<and> getCurrentPopoverDepth garbled_page 3 = NaN
   \<and> awaiting (mouseEnterHandler env0 3 10 20 garbled_page) = Some hover_d
   \<and> map_option thrown (finished (afterFetch env0 hover_d (Some png)
         (outcome_state (mouseEnterHandler env0 3 10 20 garbled_page)))) = Some (Some RangeError)
   \<and> timers (popoverEnter 1 garbled_page) = [(0, Num 0)]
   \<and> timers (cancelHideTimeoutsFromDepth (Num 0) garbled_page) = []"
  by code_simp

text \<open>The part of C4 that holds: an absent or empty attribute reads as 0 everywhere.\<close>

lemma absent_depth_is_zero:
  assumes "depthAttr (h p) = None \<or> depthAttr (h p) = Some []"
  shows "getPopoverDepth h p = Num 0"
    and "parseInt (orZero (depthAttr (h p))) None = Num 0"
proof -
  have z: "parseInt ''0'' None = Num 0" by code_simp
  show "getPopoverDepth h p = Num 0" using assms by (auto simp: getPopoverDepth_def)
  show "parseInt (orZero (depthAttr (h p))) None = Num 0" using assms z by (auto simp: orZero_def)
qed

lemma getPopoverDepth_never_NaN: "getPopoverDepth h p \<noteq> NaN"
  by (simp add: getPopoverDepth_def split: option.split jsnum.split)

text \<open>
  C3 holds of the first hover and fails of the second. The first link builds the
  popover and scrolls its inner container to the heading \<^verbatim>\<open>popover-internal-sectionA\<close>
  (offset 100, less 12). The second link finds the same popover by its id, and
  \<^verbatim>\<open>showPopover\<close> then reads \<^verbatim>\<open>popoverInner\<close> before its declaration has run: the handler
  throws \<^verbatim>\<open>ReferenceError\<close>, nothing scrolls to \<^verbatim>\<open>sectionB\<close>.
\<close>

theorem second_fragment_does_not_scroll:
  "awaiting (mouseEnterHandler env_page 1 10 20 fragment_links) = Some hover_sectionA
   \<and> doc sectionA_shown = [Dom 1 [], Dom 2 [], Dom 3 [Dom 4 [Dom 5 [Dom 6 [], Dom 7 []]]]]
   \<and> ident (heap sectionA_shown 7) = Some ''popover-internal-sectionB''
   \<and> filter isScroll (trace sectionA_shown) = [ScrollTo 4 88]
   \<and> getElementById (doc sectionA_shown) (heap sectionA_shown) ''popover-/page'' = Some 3
   \<and> map_option thrown (finished (mouseEnterHandler env_page 2 30 40 sectionA_shown))
        = Some (Some ReferenceError)
   \<and> filter isScroll (trace (outcome_state (mouseEnterHandler env_page 2 30 40 sectionA_shown)))
        = [ScrollTo 4 88]"
  unfolding sectionA_shown_def by code_simp

lemma visibility_only_refl [simp]: "visibility_only s s"
  by (simp add: visibility_only_def)

lemma visibility_only_trans:
  "visibility_only s2 s1 \<Longrightarrow> visibility_only s1 s \<Longrightarrow> visibility_only s2 s"
  by (simp add: visibility_only_def)

lemma hasClass_remove:
  "hasClass (h(r := (h r)\<lparr>classList := classList_remove a (classList (h r))\<rparr>)) c r' =
     (hasClass h c r' \<and> \<not> (r' = r \<and> c = a))"
  by (auto simp: hasClass_def classList_remove_def)

lemma hasClass_add:
  "hasClass (h(r := (h r)\<lparr>classList := classList_add a (classList (h r))\<rparr>)) c r' =
     (hasClass h c r' \<or> (r' = r \<and> c = a))"
  by (auto simp: hasClass_def classList_add_def)

lemma clearAt_visibility: "visibility_only (clearAt i s) s"
  by (auto simp: clearAt_def removeClass_def visibility_only_def hasClass_remove split: option.split)

lemma clearLoop_visibility: "visibility_only (clearLoop i s) s"
proof (induction i s rule: clearLoop.induct)
  case (1 i s)
  show ?case
  proof (cases "i < int (length (activePopoverStack s))")
    case True
    with 1 have "visibility_only (clearLoop (i + 1) (clearAt i s)) (clearAt i s)" by simp
    then have "visibility_only (clearLoop (i + 1) (clearAt i s)) s"
      by (rule visibility_only_trans) (rule clearAt_visibility)
    with True show ?thesis by (subst clearLoop.simps) simp
  next
    case False
    then show ?thesis by (subst clearLoop.simps) simp
  qed
qed

lemma clearLoop_stack [simp]: "activePopoverStack (clearLoop i s) = activePopoverStack s"
proof (induction i s rule: clearLoop.induct)
  case (1 i s)
  show ?case
  proof (cases "i < int (length (activePopoverStack s))")
    case True
    with 1 show ?thesis by (subst clearLoop.simps) simp
  next
    case False
    then show ?thesis by (subst clearLoop.simps) simp
  qed
qed

lemma clearDeeper_valid:
  assumes "0 \<le> d" "d < 4294967296"
  shows "\<exists>s1. clearDeeperPopovers (Num d) s = Returned s1 \<and> visibility_only s1 s
     \<and> activePopoverStack s1 = take (nat d) (activePopoverStack s)
          @ replicate (nat d - length (activePopoverStack s)) None"
  using assms clearLoop_visibility[of d s]
  by (simp add: clearDeeperPopovers_def Let_def set_length_def visibility_only_def)

lemma stack_set_get:
  "0 \<le> d \<Longrightarrow> d < 4294967295 \<Longrightarrow> length xs \<le> nat d \<Longrightarrow>
   stack_get (stack_set (Num d) r xs) d = Some r \<and> length (stack_set (Num d) r xs) = nat d + 1"
  by (auto simp: stack_set_def stack_get_def Suc_diff_le)

text \<open>What \<^verbatim>\<open>showPopover\<close> does on the reuse path, up to its last statement.\<close>

lemma showPopover_reuse:
  assumes "0 \<le> d" "d < 3"
  shows "\<exists>s3. (if hashDecoded k = [] then showPopover env k None prev (Num d) s = Returned s3
               else showPopover env k None prev (Num d) s = Threw ReferenceError s3)
     \<and> doc s3 = doc s \<and> nextRef s3 = nextRef s \<and> activeAnchor s3 = activeAnchor s
     \<and> popoverListenersAttached s3 = popoverListenersAttached s
     \<and> trace s3 = trace s @ [ComputePosition (link k) prev (clientX k) (clientY k)]
     \<and> hasClass (heap s3) ''active-popover'' prev
     \<and> depthAttr (heap s3 prev) = Some (toString (Num d))
     \<and> zIndex (heap s3 prev) = toString (Num (999 + d * 10))
     \<and> stack_get (activePopoverStack s3) d = Some prev
     \<and> length (activePopoverStack s3) = nat d + 1
     \<and> (\<forall>r. tagName (heap s3 r) = tagName (heap s r)
            \<and> enterListener (heap s3 r) = enterListener (heap s r)
            \<and> hasClass (heap s3) ''internal'' r = hasClass (heap s) ''internal'' r)"
proof -
  from assms have v: "0 \<le> d" "d < 4294967296" by simp_all
  obtain s1 where s1: "clearDeeperPopovers (Num d) s = Returned s1" "visibility_only s1 s"
    "activePopoverStack s1 = take (nat d) (activePopoverStack s)
          @ replicate (nat d - length (activePopoverStack s)) None"
    using clearDeeper_valid[OF v, of s] by blast
  have len: "length (activePopoverStack s1) \<le> nat d" by (simp add: s1(3))
  have sg: "stack_get (stack_set (Num d) prev (activePopoverStack s1)) d = Some prev
      \<and> length (stack_set (Num d) prev (activePopoverStack s1)) = nat d + 1"
    using assms len by (intro stack_set_get) simp_all
  show ?thesis
    using s1(1,2) sg
    by (auto simp: showPopover_def Let_def visibility_only_def hasClass_add hasClass_def
        classList_add_def)
qed

lemma map_of_weak_set: "map_of (weak_set k v m) k' = (if k' = k then Some v else map_of m k')"
  by (induction m) (auto simp: weak_set_def)

lemma attachLink_effect:
  "doc (attachLink p l s) = doc s \<and> trace (attachLink p l s) = trace s
   \<and> nextRef (attachLink p l s) = nextRef s
   \<and> activePopoverStack (attachLink p l s) = activePopoverStack s
   \<and> set (attachedLinks (attachLink p l s) p) = insert l (set (attachedLinks s p))
   \<and> (\<forall>r. classList (heap (attachLink p l s) r) = classList (heap s r)
          \<and> depthAttr (heap (attachLink p l s) r) = depthAttr (heap s r)
          \<and> zIndex (heap (attachLink p l s) r) = zIndex (heap s r)
          \<and> enterListener (heap (attachLink p l s) r) =
              (enterListener (heap s r) \<or> (r = l \<and> l \<notin> set (attachedLinks s p))))"
  by (auto simp: attachLink_def attachedLinks_def Let_def map_of_weak_set)

lemma fold_attachLink_effect:
  "doc (fold (attachLink p) ls s) = doc s \<and> trace (fold (attachLink p) ls s) = trace s
   \<and> nextRef (fold (attachLink p) ls s) = nextRef s
   \<and> activePopoverStack (fold (attachLink p) ls s) = activePopoverStack s
   \<and> set (attachedLinks (fold (attachLink p) ls s) p) = set ls \<union> set (attachedLinks s p)
   \<and> (\<forall>r. classList (heap (fold (attachLink p) ls s) r) = classList (heap s r)
          \<and> depthAttr (heap (fold (attachLink p) ls s) r) = depthAttr (heap s r)
          \<and> zIndex (heap (fold (attachLink p) ls s) r) = zIndex (heap s r)
          \<and> (enterListener (heap s r) \<longrightarrow> enterListener (heap (fold (attachLink p) ls s) r))
          \<and> (r \<in> set ls \<and> r \<notin> set (attachedLinks s p) \<longrightarrow>
                enterListener (heap (fold (attachLink p) ls s) r)))"
proof (induction ls arbitrary: s)
  case Nil
  then show ?case by simp
next
  case (Cons l ls)
  note e = attachLink_effect[of p l s]
  note ih = Cons.IH[of "attachLink p l s"]
  show ?case
    unfolding fold_simps
    using e ih by (auto simp del: fold_simps)
qed

lemma attachPopoverListeners_effect:
  "doc (attachPopoverListeners p s) = doc s \<and> trace (attachPopoverListeners p s) = trace s
   \<and> nextRef (attachPopoverListeners p s) = nextRef s
   \<and> activePopoverStack (attachPopoverListeners p s) = activePopoverStack s
   \<and> (\<forall>r. classList (heap (attachPopoverListeners p s) r) = classList (heap s r)
          \<and> depthAttr (heap (attachPopoverListeners p s) r) = depthAttr (heap s r)
          \<and> zIndex (heap (attachPopoverListeners p s) r) = zIndex (heap s r))
   \<and> list_all (\<lambda>l. l \<in> set (attachedLinks (attachPopoverListeners p s) p)
          \<and> (l \<in> set (attachedLinks s p) \<or> enterListener (heap (attachPopoverListeners p s) l)))
        (filter (isInternalLink (heap s)) (descendants (doc s) p))"
proof -
  let ?s1 = "case map_of (popoverListenersAttached s) p of
                  None \<Rightarrow> s\<lparr>popoverListenersAttached := weak_set p [] (popoverListenersAttached s)\<rparr>
                | Some ls \<Rightarrow> s"
  let ?ls = "filter (isInternalLink (heap s)) (descendants (doc s) p)"
  have a: "attachedLinks ?s1 p = attachedLinks s p"
    by (simp add: attachedLinks_def map_of_weak_set split: option.split)
  have b: "doc ?s1 = doc s" "trace ?s1 = trace s" "heap ?s1 = heap s" "nextRef ?s1 = nextRef s"
    "activePopoverStack ?s1 = activePopoverStack s"
    by (simp_all split: option.split)
  have eq: "attachPopoverListeners p s = fold (attachLink p) ?ls ?s1"
    by (simp add: attachPopoverListeners_def Let_def)
  show ?thesis
    unfolding eq list_all_iff
    using fold_attachLink_effect[of p ?ls ?s1] a b by auto
qed

text \<open>
  C6 as stated fails: when the first fetch of \<^verbatim>\<open>/a\<close> fails, no popover element is
  left in the document, and hovering the same link again fetches again.
\<close>

theorem second_hover_counterexample:
  "awaiting (mouseEnterHandler env0 1 10 20 one_link) = Some hover_a
   \<and> trace fetch_failed = [Fetch (site ''/a'' []), ConsoleError]
   \<and> awaiting (mouseEnterHandler env0 1 10 20 fetch_failed) = Some hover_a
   \<and> trace (outcome_state (mouseEnterHandler env0 1 10 20 fetch_failed))
        = [Fetch (site ''/a'' []), ConsoleError, Fetch (site ''/a'' [])]"
  unfolding fetch_failed_def by code_simp

lemma isInternalLink_same:
  "(\<forall>r. tagName (h' r) = tagName (h r) \<and> hasClass h' ''internal'' r = hasClass h ''internal'' r)
   \<Longrightarrow> isInternalLink h' = isInternalLink h"
  by (auto simp: isInternalLink_def fun_eq_iff)

lemma forest_elements_simps [simp]:
  "forest_elements [] = []"
  "forest_elements (Html e ks # hs) = e # forest_elements ks @ forest_elements hs"
  by (simp_all add: forest_elements_def)

lemma upt_split3: "[n..<n + (a + b)] = [n..<n + a] @ [n + a..<n + a + (b::nat)]"
  by (metis add.assoc le_add1 upt_add_eq_append)

lemma adopt_spec:
  "fst (adopt h s) = Dom (nextRef s) (kids (fst (adopt h s)))
   \<and> refs_of (fst (adopt h s)) = [nextRef s..<nextRef s + length (elements_of h)]
   \<and> nextRef (snd (adopt h s)) = nextRef s + length (elements_of h)
   \<and> map (heap (snd (adopt h s))) [nextRef s..<nextRef s + length (elements_of h)] = elements_of h
   \<and> (\<forall>r. r < nextRef s \<longrightarrow> heap (snd (adopt h s)) r = heap s r)"
  "forest_refs (fst (adopt_list hs s)) = [nextRef s..<nextRef s + length (forest_elements hs)]
   \<and> nextRef (snd (adopt_list hs s)) = nextRef s + length (forest_elements hs)
   \<and> map (heap (snd (adopt_list hs s))) [nextRef s..<nextRef s + length (forest_elements hs)]
        = forest_elements hs
   \<and> (\<forall>r. r < nextRef s \<longrightarrow> heap (snd (adopt_list hs s)) r = heap s r)"
proof (induction h s and hs s rule: adopt_adopt_list.induct)
  case (1 e ks s)
  let ?n = "nextRef s"
  let ?s1 = "s\<lparr>heap := (heap s)(?n := e), nextRef := Suc ?n\<rparr>"
  let ?m = "length (forest_elements ks)"
  have ih: "forest_refs (fst (adopt_list ks ?s1)) = [Suc ?n..<Suc ?n + ?m]"
    "nextRef (snd (adopt_list ks ?s1)) = Suc ?n + ?m"
    "map (heap (snd (adopt_list ks ?s1))) [Suc ?n..<Suc ?n + ?m] = forest_elements ks"
    "\<And>r. r < Suc ?n \<Longrightarrow> heap (snd (adopt_list ks ?s1)) r = heap ?s1 r"
    using 1[OF refl refl] by simp_all
  have eq: "adopt (Html e ks) s = (Dom ?n (fst (adopt_list ks ?s1)), snd (adopt_list ks ?s1))"
    by (simp add: Let_def)
  have fe: "elements_of (Html e ks) = e # forest_elements ks"
    by (simp add: forest_elements_def)
  have up0: "[?n..<Suc (?n + ?m)] = ?n # [Suc ?n..<Suc (?n + ?m)]"
    by (rule upt_conv_Cons) simp
  have up: "[?n..<?n + length (e # forest_elements ks)] = ?n # [Suc ?n..<Suc ?n + ?m]"
    using up0 by simp
  have h0: "heap (snd (adopt_list ks ?s1)) ?n = e" using ih(4)[of ?n] by simp
  have rf: "refs_of (Dom ?n (fst (adopt_list ks ?s1))) = ?n # forest_refs (fst (adopt_list ks ?s1))"
    by (simp add: forest_refs_def)
  show ?case
    unfolding eq fst_conv snd_conv fe up rf
    using ih h0 by simp
next
  case (2 s)
  then show ?case by simp
next
  case (3 k ks s)
  let ?s1 = "snd (adopt k s)"
  let ?a = "length (elements_of k)"
  let ?b = "length (forest_elements ks)"
  let ?n = "nextRef s"
  have ih1: "refs_of (fst (adopt k s)) = [?n..<?n + ?a]" "nextRef ?s1 = ?n + ?a"
    "map (heap ?s1) [?n..<?n + ?a] = elements_of k"
    "\<And>r. r < ?n \<Longrightarrow> heap ?s1 r = heap s r"
    using 3(1) by simp_all
  have ih2: "forest_refs (fst (adopt_list ks ?s1)) = [?n + ?a..<?n + ?a + ?b]"
    "nextRef (snd (adopt_list ks ?s1)) = ?n + ?a + ?b"
    "map (heap (snd (adopt_list ks ?s1))) [?n + ?a..<?n + ?a + ?b] = forest_elements ks"
    "\<And>r. r < ?n + ?a \<Longrightarrow> heap (snd (adopt_list ks ?s1)) r = heap ?s1 r"
    using 3(2)[OF refl] ih1(2) by simp_all
  have eq: "adopt_list (k # ks) s = (fst (adopt k s) # fst (adopt_list ks ?s1), snd (adopt_list ks ?s1))"
    by (simp add: Let_def)
  have fe: "forest_elements (k # ks) = elements_of k @ forest_elements ks"
    by (simp add: forest_elements_def)
  have fr: "forest_refs (fst (adopt k s) # fst (adopt_list ks ?s1)) =
      refs_of (fst (adopt k s)) @ forest_refs (fst (adopt_list ks ?s1))"
    by (simp add: forest_refs_def)
  have m1: "map (heap (snd (adopt_list ks ?s1))) [?n..<?n + ?a] = elements_of k"
  proof -
    have "map (heap (snd (adopt_list ks ?s1))) [?n..<?n + ?a] = map (heap ?s1) [?n..<?n + ?a]"
      by (rule map_cong[OF refl]) (simp add: ih2(4))
    then show ?thesis by (simp add: ih1(3))
  qed
  show ?case
    unfolding eq fst_conv snd_conv fe fr length_append upt_split3 map_append
    using ih1 ih2 m1 by simp
qed

lemma prefixId_heap:
  "heap (prefixId r s) = (heap s)(r := prefixedElement (heap s r))"
  by (auto simp: prefixId_def prefixedElement_def split: option.split)

lemma fold_prefixId_heap:
  "distinct rs \<Longrightarrow>
   heap (fold prefixId rs s) r = (if r \<in> set rs then prefixedElement (heap s r) else heap s r)"
proof (induction rs arbitrary: s)
  case Nil
  then show ?case by simp
next
  case (Cons a rs)
  then have d: "distinct rs" and a: "a \<notin> set rs" by simp_all
  show ?case
    using Cons.IH[OF d, of "prefixId a s"] a
    by (auto simp: prefixId_heap)
qed

lemma prefixed_heap:
  fixes env k contents s
  defines "parsed \<equiv> normalizeRelativeURLs env (targetUrl k) (parseFromString env contents)"
  shows "map (heap (prefixed env k contents s)) (forest_refs (fst (parsedDoc env k contents s)))
     = map prefixedElement (forest_elements parsed)"
proof -
  let ?p = "adopt_list parsed s"
  let ?n = "nextRef s"
  let ?m = "length (forest_elements parsed)"
  have r: "forest_refs (fst ?p) = [?n..<?n + ?m]"
    and h: "map (heap (snd ?p)) [?n..<?n + ?m] = forest_elements parsed"
    using adopt_spec(2)[of parsed s] by simp_all
  have pd: "parsedDoc env k contents s = ?p" by (simp add: parsedDoc_def parsed_def)
  have "map (heap (fold prefixId [?n..<?n + ?m] (snd ?p))) [?n..<?n + ?m]
      = map (\<lambda>r. prefixedElement (heap (snd ?p) r)) [?n..<?n + ?m]"
    by (rule map_cong[OF refl]) (simp add: fold_prefixId_heap)
  also have "\<dots> = map prefixedElement (map (heap (snd ?p)) [?n..<?n + ?m])" by simp
  finally show ?thesis unfolding prefixed_def pd r h .
qed

lemma content_kept_refl [simp]: "content_kept s s"
  by (simp add: content_kept_def)

lemma content_kept_trans: "content_kept s2 s1 \<Longrightarrow> content_kept s1 s \<Longrightarrow> content_kept s2 s"
  by (simp add: content_kept_def)

lemma clearDeeper_kept:
  "content_kept (state_of (clearDeeperPopovers d s)) s \<and> doc (state_of (clearDeeperPopovers d s)) = doc s"
proof (cases d)
  case NaN
  then show ?thesis by (simp add: clearDeeperPopovers_def set_length_def)
next
  case (Num i)
  have "visibility_only (clearLoop i s) s" by (rule clearLoop_visibility)
  then show ?thesis using Num
    by (auto simp: clearDeeperPopovers_def Let_def content_kept_def visibility_only_def
        split: sum.split)
qed

lemma showPopover_kept:
  "content_kept (state_of (showPopover env k inner pe d s)) s
   \<and> doc (state_of (showPopover env k inner pe d s)) = doc s"
proof (cases "clearDeeperPopovers d s")
  case (Threw e s1)
  with clearDeeper_kept[of d s] show ?thesis by (simp add: showPopover_def)
next
  case (Returned s1)
  with clearDeeper_kept[of d s] have k1: "content_kept s1 s" "doc s1 = doc s" by simp_all
  let ?el = "heap s1 pe"
  let ?s3 = "s1\<lparr>heap := (heap s1)(pe := ?el\<lparr>
                        classList := classList_add ''active-popover'' (classList ?el),
                        depthAttr := Some (toString d),
                        zIndex := toString (js_times_plus 999 d 10)\<rparr>),
                      trace := trace s1 @ [ComputePosition (link k) pe (clientX k) (clientY k)],
                      activePopoverStack := stack_set d pe (activePopoverStack s1)\<rparr>"
  have k3: "content_kept ?s3 s \<and> doc ?s3 = doc s"
    using k1 by (auto simp: content_kept_def hasClass_def classList_add_def)
  have "state_of (showPopover env k inner pe d s) = ?s3
      \<or> state_of (showPopover env k inner pe d s)
          = ?s3\<lparr>trace := trace ?s3 @ [ScrollTo (the inner)
                (offsetTop (heap ?s3 (the (projr (querySelector env (doc ?s3) (heap ?s3) (the inner)
                   (''#popover-internal-'' @ drop 1 (hashDecoded k)))))) - 12)]\<rparr>"
    using Returned
    by (auto simp: showPopover_def Let_def split: option.split sum.split)
  then show ?thesis using k3 by (auto simp: content_kept_def)
qed

lemma attachLink_kept: "content_kept (attachLink p l s) s \<and> doc (attachLink p l s) = doc s"
  by (simp add: attachLink_def Let_def content_kept_def hasClass_def)

lemma fold_attachLink_kept:
  "content_kept (fold (attachLink p) ls s) s \<and> doc (fold (attachLink p) ls s) = doc s"
proof (induction ls arbitrary: s)
  case Nil
  then show ?case by simp
next
  case (Cons l ls)
  show ?case
    using Cons.IH[of "attachLink p l s"] attachLink_kept[of p l s]
    by (auto intro: content_kept_trans)
qed

lemma attach_kept:
  "content_kept (attachPopoverListeners p s) s \<and> doc (attachPopoverListeners p s) = doc s"
proof -
  let ?s1 = "case map_of (popoverListenersAttached s) p of
                  None \<Rightarrow> s\<lparr>popoverListenersAttached := weak_set p [] (popoverListenersAttached s)\<rparr>
                | Some ls \<Rightarrow> s"
  have a: "content_kept ?s1 s \<and> doc ?s1 = doc s"
    by (simp add: content_kept_def split: option.split)
  have eq: "attachPopoverListeners p s =
      fold (attachLink p) (filter (isInternalLink (heap s)) (descendants (doc s) p)) ?s1"
    by (simp add: attachPopoverListeners_def Let_def)
  show ?thesis unfolding eq
    using fold_attachLink_kept[of p _ ?s1] a by (auto intro: content_kept_trans)
qed

lemma finish_kept:
  "content_kept (state_of (finish env k pe pi ks s)) s
   \<and> (doc (state_of (finish env k pe pi ks s)) = doc s
      \<or> doc (state_of (finish env k pe pi ks s)) = doc s @ [Dom pe [Dom pi ks]])"
proof (cases "getElementById (doc s) (heap s) (popoverId k)")
  case (Some a)
  then show ?thesis by (simp add: finish_def)
next
  case None
  let ?s1 = "s\<lparr>doc := doc s @ [Dom pe [Dom pi ks]]\<rparr>"
  have k1: "content_kept ?s1 s" by (simp add: content_kept_def)
  show ?thesis
  proof (cases "activeAnchor s \<noteq> Some (link k)")
    case True
    with None show ?thesis by (simp add: finish_def Let_def content_kept_def)
  next
    case False
    note sp = showPopover_kept[of env k "Some pi" pe "currentDepth k" ?s1]
    show ?thesis
    proof (cases "showPopover env k (Some pi) pe (currentDepth k) ?s1")
      case (Threw e s2)
      with sp k1 None False show ?thesis
        by (auto simp: finish_def Let_def intro: content_kept_trans)
    next
      case (Returned s2)
      with sp have s2: "content_kept s2 ?s1" "doc s2 = doc ?s1" by simp_all
      let ?s3 = "attachPopoverListeners pe s2"
      have s3: "content_kept ?s3 s2" "doc ?s3 = doc s2" using attach_kept[of pe s2] by simp_all
      have "content_kept (?s3\<lparr>heap := (heap ?s3)(pe := (heap ?s3 pe)\<lparr>popoverListeners := True\<rparr>)\<rparr>) ?s3"
        by (simp add: content_kept_def hasClass_def)
      then have "content_kept (?s3\<lparr>heap := (heap ?s3)(pe := (heap ?s3 pe)\<lparr>popoverListeners := True\<rparr>)\<rparr>) s"
        using s3(1) s2(1) k1 by (blast intro: content_kept_trans)
      then show ?thesis
        using Returned None False s3(2) s2(2)
        by (simp add: finish_def Let_def)
    qed
  qed
qed

lemma subtree_root:
  "subtree r t = Some t' \<Longrightarrow> root t' = r"
  "subtree_in r d = Some t' \<Longrightarrow> root t' = r"
  by (induction r t and r d rule: subtree_subtree_in.induct)
     (auto split: if_splits option.splits)

lemma subtree_refs:
  "subtree r t = Some t' \<Longrightarrow> set (refs_of t') \<subseteq> set (refs_of t)"
  "subtree_in r d = Some t' \<Longrightarrow> set (refs_of t') \<subseteq> set (forest_refs d)"
proof (induction r t and r d rule: subtree_subtree_in.induct)
  case (1 r x ks)
  then show ?case by (auto simp: forest_refs_def split: if_splits)
next
  case (2 r)
  then show ?case by simp
next
  case (3 r k ks)
  then show ?case by (cases k) (auto simp: forest_refs_def split: option.splits)
qed

lemma remove_in_roots: "set (map root (remove_in r d)) \<subseteq> set (map root d)"
  by (induction r d rule: remove_in.induct) auto

lemma appendChild_move_inv:
  assumes "elt \<in> E"
    and "set (map root (snd st)) \<subseteq> E"
    and "set (forest_refs (fst st)) \<union> set (forest_refs (snd st)) \<subseteq> R"
  shows "set (map root (snd (appendChild_move elt st))) \<subseteq> E
     \<and> set (forest_refs (fst (appendChild_move elt st)))
         \<union> set (forest_refs (snd (appendChild_move elt st))) \<subseteq> R"
proof (cases "subtree_in elt (snd st)")
  case (Some t)
  have rt: "root t = elt" using Some by (rule subtree_root(2))
  have tr: "set (refs_of t) \<subseteq> set (forest_refs (snd st))" using Some by (rule subtree_refs(2))
  have eq: "appendChild_move elt st = (fst st, remove_in elt (snd st) @ [t])"
    using Some by (simp add: appendChild_move_def)
  have fr: "forest_refs [t] = refs_of t" by (simp add: forest_refs_def)
  have r1: "set (map root (remove_in elt (snd st))) \<subseteq> E"
    using remove_in_roots[of elt "snd st"] assms(2) by (rule subset_trans)
  have r2: "set (forest_refs (remove_in elt (snd st))) \<subseteq> R"
    using remove_in_refs[of elt "snd st"] assms(3) by blast
  have c1: "set (map root (remove_in elt (snd st) @ [t])) \<subseteq> E"
    using r1 rt assms(1) by simp
  have c2: "set (forest_refs (fst st)) \<union> set (forest_refs (remove_in elt (snd st) @ [t])) \<subseteq> R"
    using r2 tr assms(3) by (simp add: fr) blast
  show ?thesis
    unfolding eq fst_conv snd_conv using c1 c2 by (rule conjI)
next
  case None
  show ?thesis
  proof (cases "subtree_in elt (fst st)")
    case (Some t)
    have rt: "root t = elt" using Some by (rule subtree_root(2))
    have tr: "set (refs_of t) \<subseteq> set (forest_refs (fst st))" using Some by (rule subtree_refs(2))
    have eq: "appendChild_move elt st = (remove_in elt (fst st), snd st @ [t])"
      using Some None by (simp add: appendChild_move_def)
    have fr: "forest_refs [t] = refs_of t" by (simp add: forest_refs_def)
    have r2: "set (forest_refs (remove_in elt (fst st))) \<subseteq> R"
      using remove_in_refs[of elt "fst st"] assms(3) by blast
    have c1: "set (map root (snd st @ [t])) \<subseteq> E"
      using assms(1,2) rt by simp
    have c2: "set (forest_refs (remove_in elt (fst st))) \<union> set (forest_refs (snd st @ [t])) \<subseteq> R"
      using r2 tr assms(3) by (simp add: fr) blast
    show ?thesis
      unfolding eq fst_conv snd_conv using c1 c2 by (rule conjI)
  next
    case n2: None
    with None have "appendChild_move elt st = st" by (simp add: appendChild_move_def)
    with assms show ?thesis by simp
  qed
qed

lemma fold_appendChild_move_inv:
  assumes "set elts \<subseteq> E"
    and "set (map root (snd st)) \<subseteq> E"
    and "set (forest_refs (fst st)) \<union> set (forest_refs (snd st)) \<subseteq> R"
  shows "set (map root (snd (fold appendChild_move elts st))) \<subseteq> E
     \<and> set (forest_refs (fst (fold appendChild_move elts st)))
         \<union> set (forest_refs (snd (fold appendChild_move elts st))) \<subseteq> R"
  using assms
proof (induction elts arbitrary: st)
  case Nil
  then show ?case by simp
next
  case (Cons e elts)
  have e: "e \<in> E" and es: "set elts \<subseteq> E" using Cons.prems(1) by simp_all
  note step = appendChild_move_inv[OF e Cons.prems(2,3)]
  show ?case
    unfolding fold_simps
    by (rule Cons.IH[OF es]) (use step in blast)+
qed

text \<open>
  C2 as stated fails for the types \<^verbatim>\<open>application/*\<close> other than \<^verbatim>\<open>application/pdf\<close>: the
  inner \<^verbatim>\<open>switch\<close> ends in \<^verbatim>\<open>default: break\<close>, so the body is never parsed (here a body
  that has preview content), and an empty popover is inserted and shown.
\<close>

theorem json_response_counterexample:
  "awaiting (mouseEnterHandler env_page 1 10 20 fragment_links) = Some hover_sectionA
   \<and> splitFirst CHR ''/'' (splitFirst CHR '';'' ''application/json'') = ''application''
   \<and> splitSecond CHR ''/'' (splitFirst CHR '';'' ''application/json'') = Some ''json''
   \<and> parseFromString env_page (body json)
        = [Html hintDiv [Html (heading ''sectionA'' 100) [], Html (heading ''sectionB'' 300) []]]
   \<and> map_option returned (finished (afterFetch env_page hover_sectionA (Some json)
         (outcome_state (mouseEnterHandler env_page 1 10 20 fragment_links)))) = Some True
   \<and> doc (outcome_state (afterFetch env_page hover_sectionA (Some json)
         (outcome_state (mouseEnterHandler env_page 1 10 20 fragment_links))))
        = [Dom 1 [], Dom 2 [], Dom 3 [Dom 4 []]]
   \<and> hasClass (heap (outcome_state (afterFetch env_page hover_sectionA (Some json)
         (outcome_state (mouseEnterHandler env_page 1 10 20 fragment_links))))) ''active-popover'' 3"
  by code_simp

lemma ident_prefixedElement:
  "ident (prefixedElement e) = map_option (\<lambda>i. ''popover-internal-'' @ i) (ident e)"
  by (simp add: prefixedElement_def split: option.split)

lemma classList_prefixedElement: "classList (prefixedElement e) = classList e"
  by (simp add: prefixedElement_def split: option.split)

lemma afterText_content:
  fixes env k contents s pe pi
  defines "parsed \<equiv> normalizeRelativeURLs env (targetUrl k) (parseFromString env contents)"
  defines "html \<equiv> fst (adopt_list parsed s)"
  defines "S \<equiv> state_of (afterText env k pe pi contents s)"
  shows "map (\<lambda>x. ident (heap S x)) (forest_refs html)
        = map (\<lambda>e. map_option (\<lambda>i. ''popover-internal-'' @ i) (ident e)) (forest_elements parsed)"
    and "list_all (\<lambda>e. ''popover-hint'' \<notin> set (classList e)) (forest_elements parsed) \<Longrightarrow> doc S = doc s"
    and "doc S = doc s
       \<or> (\<exists>ks. doc S = doc s @ [Dom pe [Dom pi ks]]
             \<and> list_all (\<lambda>t. hasClass (heap S) ''popover-hint'' (root t)) ks
             \<and> set (forest_refs ks) \<subseteq> set (forest_refs html))"
proof -
  let ?s1 = "prefixed env k contents s"
  let ?elts = "filter (hasClass (heap ?s1) ''popover-hint'') (forest_refs html)"
  let ?ks = "snd (fold appendChild_move ?elts (html, []))"
  have pd: "fst (parsedDoc env k contents s) = html"
    by (simp add: parsedDoc_def html_def parsed_def)
  have hp: "map (heap ?s1) (forest_refs html) = map prefixedElement (forest_elements parsed)"
    using prefixed_heap[of env k contents s] by (simp add: pd parsed_def)
  have d1: "doc ?s1 = doc s" using prefixed_untouched[of env k contents s] by simp
  have S_eq: "S = (if ?elts = [] then ?s1 else state_of (finish env k pe pi ?ks ?s1))"
    by (simp add: S_def afterText_eq Let_def pd)
  have kept: "content_kept S ?s1"
    unfolding S_eq using finish_kept[of env k pe pi ?ks ?s1] by simp
  have "map (\<lambda>x. ident (heap S x)) (forest_refs html) = map (\<lambda>x. ident (heap ?s1 x)) (forest_refs html)"
    using kept by (simp add: content_kept_def)
  also have "\<dots> = map ident (map (heap ?s1) (forest_refs html))" by simp
  also have "\<dots> = map (\<lambda>e. map_option (\<lambda>i. ''popover-internal-'' @ i) (ident e)) (forest_elements parsed)"
    unfolding hp by (simp add: ident_prefixedElement)
  finally show "map (\<lambda>x. ident (heap S x)) (forest_refs html)
        = map (\<lambda>e. map_option (\<lambda>i. ''popover-internal-'' @ i) (ident e)) (forest_elements parsed)" .
  show "doc S = doc s" if none: "list_all (\<lambda>e. ''popover-hint'' \<notin> set (classList e)) (forest_elements parsed)"
  proof -
    have "\<not> hasClass (heap ?s1) ''popover-hint'' x" if x: "x \<in> set (forest_refs html)" for x
    proof -
      from x have "heap ?s1 x \<in> set (map (heap ?s1) (forest_refs html))" by simp
      then have "heap ?s1 x \<in> prefixedElement ` set (forest_elements parsed)" unfolding hp by simp
      then obtain e where e: "e \<in> set (forest_elements parsed)" "heap ?s1 x = prefixedElement e"
        by blast
      from none e(1) have "''popover-hint'' \<notin> set (classList e)" by (simp add: list_all_iff)
      then show ?thesis by (simp add: hasClass_def e(2) classList_prefixedElement)
    qed
    then have "?elts = []" by (simp add: filter_empty_conv)
    then show ?thesis by (simp add: S_eq d1)
  qed
  show "doc S = doc s
       \<or> (\<exists>ks. doc S = doc s @ [Dom pe [Dom pi ks]]
             \<and> list_all (\<lambda>t. hasClass (heap S) ''popover-hint'' (root t)) ks
             \<and> set (forest_refs ks) \<subseteq> set (forest_refs html))"
  proof (cases "?elts = []")
    case True
    then show ?thesis by (simp add: S_eq d1)
  next
    case False
    then have S2: "S = state_of (finish env k pe pi ?ks ?s1)" by (simp add: S_eq)
    have inv: "set (map root ?ks) \<subseteq> set ?elts
        \<and> set (forest_refs (fst (fold appendChild_move ?elts (html, []))))
           \<union> set (forest_refs ?ks) \<subseteq> set (forest_refs html)"
      by (rule fold_appendChild_move_inv) simp_all
    have hint: "list_all (\<lambda>t. hasClass (heap S) ''popover-hint'' (root t)) ?ks"
      unfolding list_all_iff
    proof
      fix t assume "t \<in> set ?ks"
      then have "root t \<in> set ?elts" using inv by auto
      then have "hasClass (heap ?s1) ''popover-hint'' (root t)" by simp
      then show "hasClass (heap S) ''popover-hint'' (root t)"
        using kept by (simp add: content_kept_def)
    qed
    have sub: "set (forest_refs ?ks) \<subseteq> set (forest_refs html)" using inv by blast
    from finish_kept[of env k pe pi ?ks ?s1]
    have "doc S = doc s \<or> doc S = doc s @ [Dom pe [Dom pi ?ks]]"
      by (simp add: S2 d1)
    then show ?thesis using hint sub by blast
  qed
qed

lemma hidden_hidden [simp]: "hidden (hidden e) = hidden e"
  by (simp add: hidden_def classList_remove_def)

lemma clearAt_heap:
  "heap (clearAt i s) r =
     (if stack_get (activePopoverStack s) i = Some r then hidden (heap s r) else heap s r)"
  by (auto simp: clearAt_def removeClass_def hidden_def split: option.split)

lemma clearLoop_heap:
  "0 \<le> i \<Longrightarrow> heap (clearLoop i s) r =
     (if Some r \<in> set (drop (nat i) (activePopoverStack s)) then hidden (heap s r) else heap s r)"
proof (induction i s rule: clearLoop.induct)
  case (1 i s)
  let ?xs = "activePopoverStack s"
  show ?case
  proof (cases "i < int (length ?xs)")
    case False
    then show ?thesis by (subst clearLoop.simps) simp
  next
    case True
    with 1 have ih: "heap (clearLoop (i + 1) (clearAt i s)) r =
        (if Some r \<in> set (drop (nat (i + 1)) ?xs) then hidden (heap (clearAt i s) r)
         else heap (clearAt i s) r)"
      by (simp add: clearAt_def removeClass_def split: option.split)
    have n: "nat (i + 1) = Suc (nat i)" using 1(2) by simp
    have lt: "nat i < length ?xs" using True 1(2) by simp
    have dr: "drop (nat i) ?xs = ?xs ! nat i # drop (Suc (nat i)) ?xs"
      using lt by (simp add: Cons_nth_drop_Suc)
    have sg: "stack_get ?xs i = ?xs ! nat i" using lt 1(2) by (simp add: stack_get_def)
    have eq: "clearLoop i s = clearLoop (i + 1) (clearAt i s)"
      using True by (subst clearLoop.simps) simp
    show ?thesis
      using ih by (auto simp: eq n dr clearAt_heap sg)
  qed
qed

text \<open>
  The part of C7 that holds of every stack: clearing from a depth sets the length of
  the stack to that depth and keeps the slots below it; the document keeps its
  elements; the elements recorded at that depth or deeper are no longer visible; an
  element not recorded there is unchanged.
\<close>

lemma clearDeeperPopovers_effect:
  assumes "0 \<le> k" "k < 4294967296"
  shows "\<exists>s1. clearDeeperPopovers (Num k) s = Returned s1
     \<and> length (activePopoverStack s1) = nat k
     \<and> activePopoverStack s1 = take (nat k) (activePopoverStack s)
          @ replicate (nat k - length (activePopoverStack s)) None
     \<and> doc s1 = doc s
     \<and> (\<forall>r. heap s1 r = (if Some r \<in> set (drop (nat k) (activePopoverStack s))
                            then hidden (heap s r) else heap s r))
     \<and> (\<forall>r. Some r \<in> set (drop (nat k) (activePopoverStack s)) \<longrightarrow>
            \<not> hasClass (heap s1) ''active-popover'' r)"
proof -
  have v: "visibility_only (clearLoop k s) s" by (rule clearLoop_visibility)
  have h: "\<And>r. heap (clearLoop k s) r =
      (if Some r \<in> set (drop (nat k) (activePopoverStack s)) then hidden (heap s r) else heap s r)"
    using assms(1) by (rule clearLoop_heap)
  have nh: "\<And>e. ''active-popover'' \<notin> set (classList (hidden e))"
    by (simp add: hidden_def classList_remove_def)
  show ?thesis
    using assms v h nh
    by (simp add: clearDeeperPopovers_def Let_def set_length_def visibility_only_def hasClass_def
        min_def)
qed

lemma subtree_None:
  "(subtree r t = None) = (r \<notin> set (refs_of t))"
  "(subtree_in r d = None) = (r \<notin> set (forest_refs d))"
proof (induction r t and r d rule: subtree_subtree_in.induct)
  case (1 r x ks)
  then show ?case by (auto simp: forest_refs_def)
next
  case (2 r)
  then show ?case by simp
next
  case (3 r k ks)
  then show ?case by (cases k) (auto simp: forest_refs_def split: option.splits)
qed

lemma remove_in_absent: "r \<notin> set (forest_refs d) \<Longrightarrow> remove_in r d = d"
  by (induction r d rule: remove_in.induct) auto

lemma remove_in_keeps_roots: "r \<notin> set (map root d) \<Longrightarrow> map root (remove_in r d) = map root d"
  by (induction r d rule: remove_in.induct) auto

lemma subtree_in_Cons:
  "subtree_in r (Dom x ks # rest) =
     (if x = r then Some (Dom x ks)
      else (case subtree_in r ks of Some t \<Rightarrow> Some t | None \<Rightarrow> subtree_in r rest))"
  by simp

text \<open>Taking a subtree out of a forest whose references are distinct.\<close>

lemma remove_in_subtree:
  "distinct (forest_refs d) \<Longrightarrow> subtree_in r d = Some t \<Longrightarrow>
   set (forest_refs (remove_in r d)) = set (forest_refs d) - set (refs_of t)
   \<and> distinct (forest_refs (remove_in r d)) \<and> distinct (refs_of t)
   \<and> set (refs_of t) \<subseteq> set (forest_refs d)"
proof (induction r d arbitrary: t rule: remove_in.induct)
  case (1 r)
  then show ?case by simp
next
  case (2 r x ks rest)
  have dk: "distinct (forest_refs ks)" and dr: "distinct (forest_refs rest)"
    and xk: "x \<notin> set (forest_refs ks)" and xr: "x \<notin> set (forest_refs rest)"
    and kr: "set (forest_refs ks) \<inter> set (forest_refs rest) = {}"
    using "2.prems"(1) by auto
  show ?case
  proof (cases "x = r")
    case True
    then have t: "t = Dom x ks" using "2.prems"(2) by simp
    have "r \<notin> set (forest_refs rest)" using True xr by simp
    then have rm: "remove_in r rest = rest" by (rule remove_in_absent)
    have rf: "\<And>y. refs_of (Dom y ks) = y # forest_refs ks" by (simp add: forest_refs_def)
    show ?thesis
      using True rm dk dr xk xr kr by (auto simp: t rf simp del: refs_of.simps)
  next
    case False
    show ?thesis
    proof (cases "subtree_in r ks")
      case (Some t')
      then have t: "t' = t" using "2.prems"(2) False by simp
      have ih: "set (forest_refs (remove_in r ks)) = set (forest_refs ks) - set (refs_of t)
          \<and> distinct (forest_refs (remove_in r ks)) \<and> distinct (refs_of t)
          \<and> set (refs_of t) \<subseteq> set (forest_refs ks)"
        using "2.IH"(2)[OF False dk] Some t by simp
      have "r \<in> set (forest_refs ks)" using Some subtree_None(2)[of r ks] by auto
      then have "r \<notin> set (forest_refs rest)" using kr by auto
      then have rm: "remove_in r rest = rest" by (rule remove_in_absent)
      show ?thesis
        using False rm ih dr xk xr kr by auto
    next
      case None
      then have t: "subtree_in r rest = Some t" using "2.prems"(2) False by simp
      have "r \<notin> set (forest_refs ks)" using None subtree_None(2)[of r ks] by simp
      then have rm: "remove_in r ks = ks" by (rule remove_in_absent)
      have ih: "set (forest_refs (remove_in r rest)) = set (forest_refs rest) - set (refs_of t)
          \<and> distinct (forest_refs (remove_in r rest)) \<and> distinct (refs_of t)
          \<and> set (refs_of t) \<subseteq> set (forest_refs rest)"
        using "2.IH"(3)[OF False dr t] .
      show ?thesis
        using False rm ih dk xk xr kr by auto
    qed
  qed
qed

text \<open>
  One \<^verbatim>\<open>appendChild\<close> of an element of the parsed document that is not yet a child of
  the container: it becomes the last child, the children before it stay, and the two
  forests together still hold every parsed element once.
\<close>

lemma appendChild_move_exact:
  assumes dist: "distinct (forest_refs (fst st) @ forest_refs (snd st))"
    and mem: "elt \<in> set (forest_refs (fst st)) \<union> set (forest_refs (snd st))"
    and nroot: "elt \<notin> set (map root (snd st))"
  shows "map root (snd (appendChild_move elt st)) = map root (snd st) @ [elt]
     \<and> distinct (forest_refs (fst (appendChild_move elt st)) @ forest_refs (snd (appendChild_move elt st)))
     \<and> set (forest_refs (fst (appendChild_move elt st))) \<union> set (forest_refs (snd (appendChild_move elt st)))
         = set (forest_refs (fst st)) \<union> set (forest_refs (snd st))"
proof (cases "subtree_in elt (snd st)")
  case (Some t)
  have d2: "distinct (forest_refs (snd st))" using dist by simp
  note rs = remove_in_subtree[OF d2 Some]
  have rt: "root t = elt" using Some by (rule subtree_root(2))
  have eq: "appendChild_move elt st = (fst st, remove_in elt (snd st) @ [t])"
    using Some by (simp add: appendChild_move_def)
  have fr: "forest_refs [t] = refs_of t" by (simp add: forest_refs_def)
  have roots: "map root (remove_in elt (snd st)) = map root (snd st)"
    using nroot by (rule remove_in_keeps_roots)
  have c1: "map root (remove_in elt (snd st) @ [t]) = map root (snd st) @ [elt]"
    using roots rt by simp
  have c2: "distinct (forest_refs (fst st) @ forest_refs (remove_in elt (snd st) @ [t]))"
    using dist rs by (auto simp: fr)
  have c3: "set (forest_refs (fst st)) \<union> set (forest_refs (remove_in elt (snd st) @ [t]))
      = set (forest_refs (fst st)) \<union> set (forest_refs (snd st))"
    using rs by (auto simp: fr)
  show ?thesis unfolding eq fst_conv snd_conv using c1 c2 c3 by blast
next
  case None
  then have "elt \<notin> set (forest_refs (snd st))" using subtree_None(2)[of elt "snd st"] by simp
  with mem have "elt \<in> set (forest_refs (fst st))" by simp
  then obtain t where t: "subtree_in elt (fst st) = Some t"
    using subtree_None(2)[of elt "fst st"] by (cases "subtree_in elt (fst st)") auto
  have d1: "distinct (forest_refs (fst st))" using dist by simp
  note rs = remove_in_subtree[OF d1 t]
  have rt: "root t = elt" using t by (rule subtree_root(2))
  have eq: "appendChild_move elt st = (remove_in elt (fst st), snd st @ [t])"
    using t None by (simp add: appendChild_move_def)
  have fr: "forest_refs [t] = refs_of t" by (simp add: forest_refs_def)
  have c1: "map root (snd st @ [t]) = map root (snd st) @ [elt]" using rt by simp
  have c2: "distinct (forest_refs (remove_in elt (fst st)) @ forest_refs (snd st @ [t]))"
    using dist rs by (auto simp: fr)
  have c3: "set (forest_refs (remove_in elt (fst st))) \<union> set (forest_refs (snd st @ [t]))
      = set (forest_refs (fst st)) \<union> set (forest_refs (snd st))"
    using rs by (auto simp: fr)
  show ?thesis unfolding eq fst_conv snd_conv using c1 c2 c3 by blast
qed

lemma fold_appendChild_move_exact:
  assumes "distinct (forest_refs (fst st) @ forest_refs (snd st))"
    and "set elts \<subseteq> set (forest_refs (fst st)) \<union> set (forest_refs (snd st))"
    and "distinct elts"
    and "set elts \<inter> set (map root (snd st)) = {}"
  shows "map root (snd (fold appendChild_move elts st)) = map root (snd st) @ elts
     \<and> set (forest_refs (snd (fold appendChild_move elts st)))
          \<subseteq> set (forest_refs (fst st)) \<union> set (forest_refs (snd st))"
  using assms
proof (induction elts arbitrary: st)
  case Nil
  then show ?case by auto
next
  case (Cons e elts)
  let ?st = "appendChild_move e st"
  have m: "e \<in> set (forest_refs (fst st)) \<union> set (forest_refs (snd st))"
    using Cons.prems(2) by simp
  have nr: "e \<notin> set (map root (snd st))" using Cons.prems(4) by auto
  note step = appendChild_move_exact[OF Cons.prems(1) m nr]
  have p1: "distinct (forest_refs (fst ?st) @ forest_refs (snd ?st))" using step by blast
  have u: "set (forest_refs (fst ?st)) \<union> set (forest_refs (snd ?st))
      = set (forest_refs (fst st)) \<union> set (forest_refs (snd st))" using step by blast
  have p2: "set elts \<subseteq> set (forest_refs (fst ?st)) \<union> set (forest_refs (snd ?st))"
    unfolding u using Cons.prems(2) by simp
  have p3: "distinct elts" using Cons.prems(3) by simp
  have rt: "map root (snd ?st) = map root (snd st) @ [e]" using step by blast
  have p4: "set elts \<inter> set (map root (snd ?st)) = {}"
    unfolding rt using Cons.prems(3,4) by auto
  note ih = Cons.IH[OF p1 p2 p3 p4]
  show ?case
    unfolding fold_simps o_apply using ih by (simp add: rt u)
qed

text \<open>Whether \<^verbatim>\<open>finish\<close> inserts depends on the duplicate check alone.\<close>

lemma finish_doc:
  "doc (state_of (finish env k pe pi ks s)) =
     (if getElementById (doc s) (heap s) (popoverId k) = None
      then doc s @ [Dom pe [Dom pi ks]] else doc s)"
proof (cases "getElementById (doc s) (heap s) (popoverId k)")
  case (Some a)
  then show ?thesis by (simp add: finish_def)
next
  case None
  let ?s1 = "s\<lparr>doc := doc s @ [Dom pe [Dom pi ks]]\<rparr>"
  note sp = showPopover_kept[of env k "Some pi" pe "currentDepth k" ?s1]
  show ?thesis
  proof (cases "showPopover env k (Some pi) pe (currentDepth k) ?s1")
    case (Threw e s2)
    with sp None show ?thesis by (simp add: finish_def Let_def)
  next
    case (Returned s2)
    with sp have "doc s2 = doc ?s1" by simp
    with Returned None attach_kept[of pe s2] show ?thesis
      by (simp add: finish_def Let_def)
  qed
qed

text \<open>
  C6, as amended. Take a link that has not opted out, whose \<^verbatim>\<open>href\<close> is a valid URL and
  whose fragment \<^verbatim>\<open>decodeURIComponent\<close> accepts (any query, any such fragment).

  (a) If a popover element with the id \<^verbatim>\<open>popover-\<close> followed by the link's path is in
  the document and the link's computed depth is 0, 1 or 2, a pointer entering the link
  fetches nothing and creates nothing: the handler finishes in the same turn, the only
  call to an external service is the placement request for that element, the element is
  visible, carries the link's depth and the z-index of that depth, and is recorded in
  the depth stack at that depth, which is the top of the stack. When the decoded
  fragment is empty, the handler returns normally and every internal link inside the
  element is recorded as attached and carries the hover listener (or was recorded
  before).

  (b) If no such element is in the document and the computed depth is not at least
  \<^verbatim>\<open>MAX_POPOVER_DEPTH\<close>, the handler starts a fetch of the URL without fragment and
  query, inserts nothing and waits.

  (c) A fetch that fails is logged and inserts nothing.

  So, for such a link, (b) applies at every hover for as long as no popover element
  with that id is in the document.
\<close>

theorem reuse_performs_no_fetch:
  assumes "noPopoverAttr (heap s l) \<noteq> Some ''true''"
    and "href (heap s l) = Some u" and "decodeURIComponent env (hash u) = Some h"
  shows "(getCurrentPopoverDepth s l = Num d \<and> 0 \<le> d \<and> d < 3
          \<and> getElementById (doc s) (heap s) (''popover-'' @ pathname u) = Some prev \<longrightarrow>
        (\<exists>r. mouseEnterHandler env l x y s = Finished r
           \<and> filter isFetch (trace (state_of r)) = filter isFetch (trace s)
           \<and> trace (state_of r) = trace s @ [ComputePosition l prev x y]
           \<and> doc (state_of r) = doc s \<and> nextRef (state_of r) = nextRef s
           \<and> hasClass (heap (state_of r)) ''active-popover'' prev
           \<and> depthAttr (heap (state_of r) prev) = Some (toString (Num d))
           \<and> zIndex (heap (state_of r) prev) = toString (Num (999 + d * 10))
           \<and> stack_get (activePopoverStack (state_of r)) d = Some prev
           \<and> length (activePopoverStack (state_of r)) = nat d + 1
           \<and> (h = [] \<longrightarrow> returned r
                \<and> list_all (\<lambda>l'. l' \<in> set (attachedLinks (state_of r) prev)
                       \<and> (l' \<in> set (attachedLinks s prev) \<or> enterListener (heap (state_of r) l')))
                     (filter (isInternalLink (heap s)) (descendants (doc s) prev)))))
    \<and> (\<not> js_ge (getCurrentPopoverDepth s l) MAX_POPOVER_DEPTH
          \<and> getElementById (doc s) (heap s) (''popover-'' @ pathname u) = None \<longrightarrow>
        (\<exists>k s'. mouseEnterHandler env l x y s = Await k s'
           \<and> link k = l \<and> targetUrl k = u\<lparr>hash := [], search := []\<rparr>
           \<and> popoverId k = ''popover-'' @ pathname u
           \<and> trace s' = trace s @ [Fetch (u\<lparr>hash := [], search := []\<rparr>)]
           \<and> doc s' = doc s \<and> nextRef s' = nextRef s))
    \<and> afterFetch env k' None s' = Finished (Returned (s'\<lparr>trace := trace s' @ [ConsoleError]\<rparr>))"
proof (intro conjI impI)
  assume a: "getCurrentPopoverDepth s l = Num d \<and> 0 \<le> d \<and> d < 3
          \<and> getElementById (doc s) (heap s) (''popover-'' @ pathname u) = Some prev"
  then have dp: "getCurrentPopoverDepth s l = Num d" and d0: "0 \<le> d" and d3: "d < 3"
    and ex: "getElementById (doc s) (heap s) (''popover-'' @ pathname u) = Some prev"
    by simp_all
  let ?s0 = "s\<lparr>activeAnchor := Some l\<rparr>"
  let ?s1 = "cancelHideTimeoutsFromDepth (Num d) ?s0"
  let ?k = "\<lparr>link = l, clientX = x, clientY = y, currentDepth = Num d,
              targetUrl = u\<lparr>hash := [], search := []\<rparr>, hashDecoded = h,
              popoverId = ''popover-'' @ pathname u\<rparr>"
  have ge: "\<not> js_ge (Num d) MAX_POPOVER_DEPTH" using d3 by (simp add: MAX_POPOVER_DEPTH_def)
  have eq: "mouseEnterHandler env l x y s =
      (case showPopover env ?k None prev (Num d) ?s1 of
         Threw e s2 \<Rightarrow> Finished (Threw e s2)
       | Returned s2 \<Rightarrow> Finished (Returned (attachPopoverListeners prev s2)))"
    using assms dp ex ge by (simp add: mouseEnterHandler_def Let_def)
  obtain s3 where s3:
    "if h = [] then showPopover env ?k None prev (Num d) ?s1 = Returned s3
     else showPopover env ?k None prev (Num d) ?s1 = Threw ReferenceError s3"
    "doc s3 = doc s" "nextRef s3 = nextRef s"
    "popoverListenersAttached s3 = popoverListenersAttached s"
    "trace s3 = trace s @ [ComputePosition l prev x y]"
    "hasClass (heap s3) ''active-popover'' prev"
    "depthAttr (heap s3 prev) = Some (toString (Num d))"
    "zIndex (heap s3 prev) = toString (Num (999 + d * 10))"
    "stack_get (activePopoverStack s3) d = Some prev"
    "length (activePopoverStack s3) = nat d + 1"
    "\<forall>r. tagName (heap s3 r) = tagName (heap s r)
            \<and> enterListener (heap s3 r) = enterListener (heap s r)
            \<and> hasClass (heap s3) ''internal'' r = hasClass (heap s) ''internal'' r"
    using showPopover_reuse[OF d0 d3, of ?k env prev ?s1] by auto
  show "\<exists>r. mouseEnterHandler env l x y s = Finished r
           \<and> filter isFetch (trace (state_of r)) = filter isFetch (trace s)
           \<and> trace (state_of r) = trace s @ [ComputePosition l prev x y]
           \<and> doc (state_of r) = doc s \<and> nextRef (state_of r) = nextRef s
           \<and> hasClass (heap (state_of r)) ''active-popover'' prev
           \<and> depthAttr (heap (state_of r) prev) = Some (toString (Num d))
           \<and> zIndex (heap (state_of r) prev) = toString (Num (999 + d * 10))
           \<and> stack_get (activePopoverStack (state_of r)) d = Some prev
           \<and> length (activePopoverStack (state_of r)) = nat d + 1
           \<and> (h = [] \<longrightarrow> returned r
                \<and> list_all (\<lambda>l'. l' \<in> set (attachedLinks (state_of r) prev)
                       \<and> (l' \<in> set (attachedLinks s prev) \<or> enterListener (heap (state_of r) l')))
                     (filter (isInternalLink (heap s)) (descendants (doc s) prev)))"
  proof (cases "h = []")
    case False
    with s3(1) have "mouseEnterHandler env l x y s = Finished (Threw ReferenceError s3)"
      by (simp add: eq)
    then show ?thesis using False s3 by simp
  next
    case True
    with s3(1) have r: "mouseEnterHandler env l x y s = Finished (Returned (attachPopoverListeners prev s3))"
      by (simp add: eq)
    note e = attachPopoverListeners_effect[of prev s3]
    have il: "isInternalLink (heap s3) = isInternalLink (heap s)"
      by (rule isInternalLink_same) (use s3(11) in simp)
    have al: "attachedLinks s3 prev = attachedLinks s prev"
      by (simp add: attachedLinks_def s3(4))
    have cls: "hasClass (heap (attachPopoverListeners prev s3)) ''active-popover'' prev"
      using e s3(6) by (simp add: hasClass_def)
    show ?thesis
      unfolding r using e s3(2,3,5,7,8,9,10) cls
      by (simp add: il al s3(2))
  qed
next
  assume b: "\<not> js_ge (getCurrentPopoverDepth s l) MAX_POPOVER_DEPTH
          \<and> getElementById (doc s) (heap s) (''popover-'' @ pathname u) = None"
  show "\<exists>k s'. mouseEnterHandler env l x y s = Await k s'
           \<and> link k = l \<and> targetUrl k = u\<lparr>hash := [], search := []\<rparr>
           \<and> popoverId k = ''popover-'' @ pathname u
           \<and> trace s' = trace s @ [Fetch (u\<lparr>hash := [], search := []\<rparr>)]
           \<and> doc s' = doc s \<and> nextRef s' = nextRef s"
    using assms b by (simp add: mouseEnterHandler_def Let_def)
next
  show "afterFetch env k' None s' = Finished (Returned (s'\<lparr>trace := trace s' @ [ConsoleError]\<rparr>))"
    by (simp add: afterFetch_def)
qed

theorem reuse_performs_no_fetch_witness:
  "noPopoverAttr (heap query_link_page 2) \<noteq> Some ''true''
   \<and> href (heap query_link_page 2) = Some query_url
   \<and> decodeURIComponent env_page (hash query_url) = Some ''#sectionB''
   \<and> getCurrentPopoverDepth query_link_page 2 = Num 0
   \<and> getElementById (doc query_link_page) (heap query_link_page) ''popover-/page'' = Some 3
   \<and> (\<exists>r. mouseEnterHandler env_page 2 30 40 query_link_page = Finished r
        \<and> filter isFetch (trace (state_of r)) = filter isFetch (trace query_link_page)
        \<and> trace (state_of r) = trace query_link_page @ [ComputePosition 2 3 30 40]
        \<and> doc (state_of r) = doc query_link_page
        \<and> hasClass (heap (state_of r)) ''active-popover'' 3
        \<and> depthAttr (heap (state_of r) 3) = Some ''0''
        \<and> stack_get (activePopoverStack (state_of r)) 0 = Some 3
        \<and> length (activePopoverStack (state_of r)) = 1)
   \<and> noPopoverAttr (heap one_link 1) \<noteq> Some ''true''
   \<and> href (heap one_link 1) = Some (site ''/a'' [])
   \<and> \<not> js_ge (getCurrentPopoverDepth one_link 1) MAX_POPOVER_DEPTH
   \<and> getElementById (doc one_link) (heap one_link) ''popover-/a'' = None
   \<and> (\<exists>k s'. mouseEnterHandler env0 1 10 20 one_link = Await k s'
        \<and> link k = 1 \<and> popoverId k = ''popover-/a''
        \<and> trace s' = [Fetch (site ''/a'' [])] \<and> doc s' = doc one_link)
   \<and> afterFetch env0 hover_a None fetch_failed
        = Finished (Returned (fetch_failed\<lparr>trace := trace fetch_failed @ [ConsoleError]\<rparr>))"
proof -
  have a1: "noPopoverAttr (heap query_link_page 2) \<noteq> Some ''true''"
    unfolding query_link_page_def sectionA_shown_def by code_simp
  have a2: "href (heap query_link_page 2) = Some query_url"
    unfolding query_link_page_def sectionA_shown_def query_url_def by code_simp
  have a3: "decodeURIComponent env_page (hash query_url) = Some ''#sectionB''"
    by (simp add: env_page_def query_url_def)
  have a4: "getCurrentPopoverDepth query_link_page 2 = Num 0"
    unfolding query_link_page_def sectionA_shown_def by code_simp
  have a5: "getElementById (doc query_link_page) (heap query_link_page) ''popover-/page'' = Some 3"
    unfolding query_link_page_def sectionA_shown_def by code_simp
  have p: "''popover-'' @ pathname query_url = ''popover-/page''" by (simp add: query_url_def)
  have t0: "toString (Num 0) = ''0''" by code_simp
  have pre: "getCurrentPopoverDepth query_link_page 2 = Num 0 \<and> (0::int) \<le> 0 \<and> (0::int) < 3
      \<and> getElementById (doc query_link_page) (heap query_link_page) (''popover-'' @ pathname query_url) = Some 3"
    using a4 a5 p by simp
  from reuse_performs_no_fetch[OF a1 a2 a3, of 0 3 30 40] pre
  obtain r where r: "mouseEnterHandler env_page 2 30 40 query_link_page = Finished r"
    "filter isFetch (trace (state_of r)) = filter isFetch (trace query_link_page)"
    "trace (state_of r) = trace query_link_page @ [ComputePosition 2 3 30 40]"
    "doc (state_of r) = doc query_link_page"
    "hasClass (heap (state_of r)) ''active-popover'' 3"
    "depthAttr (heap (state_of r) 3) = Some (toString (Num 0))"
    "stack_get (activePopoverStack (state_of r)) 0 = Some 3"
    "length (activePopoverStack (state_of r)) = nat 0 + 1"
    by blast
  have A: "\<exists>r. mouseEnterHandler env_page 2 30 40 query_link_page = Finished r
        \<and> filter isFetch (trace (state_of r)) = filter isFetch (trace query_link_page)
        \<and> trace (state_of r) = trace query_link_page @ [ComputePosition 2 3 30 40]
        \<and> doc (state_of r) = doc query_link_page
        \<and> hasClass (heap (state_of r)) ''active-popover'' 3
        \<and> depthAttr (heap (state_of r) 3) = Some ''0''
        \<and> stack_get (activePopoverStack (state_of r)) 0 = Some 3
        \<and> length (activePopoverStack (state_of r)) = 1"
  proof -
    from r(6) have dp: "depthAttr (heap (state_of r) 3) = Some ''0''" unfolding t0 .
    from r(8) have len: "length (activePopoverStack (state_of r)) = 1" by simp
    show ?thesis using r(1,2,3,4,5,7) dp len by blast
  qed
  have b1: "noPopoverAttr (heap one_link 1) \<noteq> Some ''true''" by code_simp
  have b2: "href (heap one_link 1) = Some (site ''/a'' [])" by code_simp
  have b3: "decodeURIComponent env0 (hash (site ''/a'' [])) = Some []"
    by (simp add: env0_def site_def)
  have b4: "\<not> js_ge (getCurrentPopoverDepth one_link 1) MAX_POPOVER_DEPTH" by code_simp
  have b5: "getElementById (doc one_link) (heap one_link) ''popover-/a'' = None" by code_simp
  have q: "''popover-'' @ pathname (site ''/a'' []) = ''popover-/a''" by (simp add: site_def)
  have u: "(site ''/a'' [])\<lparr>hash := [], search := []\<rparr> = site ''/a'' []" by (simp add: site_def)
  have tr: "trace one_link = []" by (simp add: one_link_def)
  note w = reuse_performs_no_fetch[OF b1 b2 b3, of 0 0 10 20 hover_a fetch_failed]
  have preB: "\<not> js_ge (getCurrentPopoverDepth one_link 1) MAX_POPOVER_DEPTH
      \<and> getElementById (doc one_link) (heap one_link) (''popover-'' @ pathname (site ''/a'' [])) = None"
    using b4 b5 q by simp
  from w preB obtain k s' where ks: "mouseEnterHandler env0 1 10 20 one_link = Await k s'"
    "link k = 1" "popoverId k = ''popover-'' @ pathname (site ''/a'' [])"
    "trace s' = trace one_link @ [Fetch ((site ''/a'' [])\<lparr>hash := [], search := []\<rparr>)]"
    "doc s' = doc one_link"
    by blast
  have B: "\<exists>k s'. mouseEnterHandler env0 1 10 20 one_link = Await k s'
        \<and> link k = 1 \<and> popoverId k = ''popover-/a''
        \<and> trace s' = [Fetch (site ''/a'' [])] \<and> doc s' = doc one_link"
  proof -
    from ks(3) have pid: "popoverId k = ''popover-/a''" unfolding q .
    from ks(4) have trc: "trace s' = [Fetch (site ''/a'' [])]" unfolding u tr by simp
    show ?thesis using ks(1,2,5) pid trc by blast
  qed
  have C: "afterFetch env0 hover_a None fetch_failed
        = Finished (Returned (fetch_failed\<lparr>trace := trace fetch_failed @ [ConsoleError]\<rparr>))"
    using w by blast
  show ?thesis
    using a1 a2 a3 a4 a5 A b1 b2 b4 b5 B C by blast
qed

lemma afterText_exact:
  fixes env k contents s pe pi
  defines "parsed \<equiv> normalizeRelativeURLs env (targetUrl k) (parseFromString env contents)"
  defines "html \<equiv> fst (adopt_list parsed s)"
  defines "s1 \<equiv> prefixed env k contents s"
  defines "elts \<equiv> filter (hasClass (heap s1) ''popover-hint'') (forest_refs html)"
  defines "ks \<equiv> snd (fold appendChild_move elts (html, []))"
  shows "afterText env k pe pi contents s =
           (if elts = [] then Returned s1 else finish env k pe pi ks s1)"
    and "map root ks = elts"
    and "set (forest_refs ks) \<subseteq> set (forest_refs html)"
    and "(elts = []) = list_all (\<lambda>e. ''popover-hint'' \<notin> set (classList e)) (forest_elements parsed)"
    and "untouched s1 s" and "doc s1 = doc s"
proof -
  have pd: "fst (parsedDoc env k contents s) = html"
    by (simp add: parsedDoc_def html_def parsed_def)
  show "afterText env k pe pi contents s =
           (if elts = [] then Returned s1 else finish env k pe pi ks s1)"
    by (simp add: afterText_eq Let_def pd s1_def elts_def ks_def)
  have refs: "forest_refs html = [nextRef s..<nextRef s + length (forest_elements parsed)]"
    using adopt_spec(2)[of parsed s] by (simp add: html_def)
  have d: "distinct (forest_refs (fst (html, [])) @ forest_refs (snd (html, [])))"
    by (simp add: refs)
  have sub: "set elts \<subseteq> set (forest_refs (fst (html, []))) \<union> set (forest_refs (snd (html, [])))"
    by (auto simp: elts_def)
  have de: "distinct elts" by (simp add: elts_def refs)
  have nr: "set elts \<inter> set (map root (snd (html, []))) = {}" by simp
  note f = fold_appendChild_move_exact[OF d sub de nr]
  show "map root ks = elts" using f by (simp add: ks_def)
  show "set (forest_refs ks) \<subseteq> set (forest_refs html)" using f by (simp add: ks_def)
  have hp: "map (heap s1) (forest_refs html) = map prefixedElement (forest_elements parsed)"
    using prefixed_heap[of env k contents s] by (simp add: pd parsed_def s1_def)
  have "(elts = []) = list_all (\<lambda>e. ''popover-hint'' \<notin> set (classList e)) (map (heap s1) (forest_refs html))"
    by (simp add: elts_def filter_empty_conv list_all_iff hasClass_def)
  also have "\<dots> = list_all (\<lambda>e. ''popover-hint'' \<notin> set (classList e)) (forest_elements parsed)"
    unfolding hp by (simp add: list_all_iff classList_prefixedElement)
  finally show "(elts = []) = list_all (\<lambda>e. ''popover-hint'' \<notin> set (classList e)) (forest_elements parsed)" .
  show "untouched s1 s" "doc s1 = doc s"
    using prefixed_untouched[of env k contents s] by (simp_all add: s1_def)
qed

text \<open>
  C2, as amended. Take a response with a \<^verbatim>\<open>Content-Type\<close> header; its category is the
  text before the first \<^verbatim>\<open>/\<close> of the part before \<^verbatim>\<open>;\<close>. Elements the handler creates
  or parses are new objects, not ones already in the document (\<open>fresh\<close>).

  When the category is neither \<^verbatim>\<open>image\<close> nor \<^verbatim>\<open>application\<close>, the handler inserts
  nothing when the response arrives and waits for the text of the body. With the text it
  parses the body, rewrites the relative URLs against the target URL, and gives every
  parsed element that has an id the id prefixed with \<^verbatim>\<open>popover-internal-\<close>. If no
  parsed element carries the class \<^verbatim>\<open>popover-hint\<close>, the handler returns and the
  document stays as it is. If some do and no popover with the same id is in the
  document, the document gains exactly one popover, as last child of the body, and the
  children of its inner container are exactly the parsed elements that carry
  \<^verbatim>\<open>popover-hint\<close>, in document order, everything below them being parsed elements; if a
  popover with that id is already there, the document stays as it is.

  When the category is \<^verbatim>\<open>application\<close> and the type is not \<^verbatim>\<open>pdf\<close>, the body is not
  parsed: the handler finishes when the response arrives and, if no popover with the
  same id is in the document, the document gains a popover whose inner container is
  empty.
\<close>

theorem html_response_yields_preview_content:
  assumes "contentTypeHeader r = Some header"
  shows "(splitFirst CHR ''/'' (splitFirst CHR '';'' header) \<noteq> ''image''
          \<and> splitFirst CHR ''/'' (splitFirst CHR '';'' header) \<noteq> ''application'' \<longrightarrow>
        (\<exists>s2. afterFetch env k (Some r) s = Await (k, nextRef s, Suc (nextRef s), body r) s2
            \<and> doc s2 = doc s))
    \<and> (splitFirst CHR ''/'' (splitFirst CHR '';'' header) = ''application''
          \<and> splitSecond CHR ''/'' (splitFirst CHR '';'' header) \<noteq> Some ''pdf''
          \<and> fresh s \<and> getElementById (doc s) (heap s) (popoverId k) = None \<longrightarrow>
        (\<exists>res. afterFetch env k (Some r) s = Finished res
            \<and> doc (state_of res) = doc s @ [Dom (nextRef s) [Dom (Suc (nextRef s)) []]]))
    \<and> map (\<lambda>x. ident (heap (state_of (afterText env k pe pi contents s')) x))
          (forest_refs (fst (adopt_list
             (normalizeRelativeURLs env (targetUrl k) (parseFromString env contents)) s')))
        = map (\<lambda>e. map_option (\<lambda>i. ''popover-internal-'' @ i) (ident e))
            (forest_elements (normalizeRelativeURLs env (targetUrl k) (parseFromString env contents)))
    \<and> (list_all (\<lambda>e. ''popover-hint'' \<notin> set (classList e))
          (forest_elements (normalizeRelativeURLs env (targetUrl k) (parseFromString env contents)))
        \<longrightarrow> returned (afterText env k pe pi contents s')
            \<and> doc (state_of (afterText env k pe pi contents s')) = doc s')
    \<and> (\<not> list_all (\<lambda>e. ''popover-hint'' \<notin> set (classList e))
          (forest_elements (normalizeRelativeURLs env (targetUrl k) (parseFromString env contents)))
          \<and> fresh s' \<and> getElementById (doc s') (heap s') (popoverId k) = None \<longrightarrow>
        (\<exists>ks. doc (state_of (afterText env k pe pi contents s')) = doc s' @ [Dom pe [Dom pi ks]]
             \<and> ks \<noteq> []
             \<and> map root ks = filter (hasClass (heap (state_of (afterText env k pe pi contents s')))
                   ''popover-hint'')
                 (forest_refs (fst (adopt_list
                   (normalizeRelativeURLs env (targetUrl k) (parseFromString env contents)) s')))
             \<and> set (forest_refs ks) \<subseteq> set (forest_refs (fst (adopt_list
                   (normalizeRelativeURLs env (targetUrl k) (parseFromString env contents)) s')))))
    \<and> (fresh s' \<and> getElementById (doc s') (heap s') (popoverId k) \<noteq> None \<longrightarrow>
          doc (state_of (afterText env k pe pi contents s')) = doc s')"
proof -
  let ?parsed = "normalizeRelativeURLs env (targetUrl k) (parseFromString env contents)"
  let ?html = "fst (adopt_list ?parsed s')"
  let ?s1 = "prefixed env k contents s'"
  let ?elts = "filter (hasClass (heap ?s1) ''popover-hint'') (forest_refs ?html)"
  let ?ks = "snd (fold appendChild_move ?elts (?html, []))"
  let ?S = "state_of (afterText env k pe pi contents s')"
  note ex0 = afterText_exact[where env = env and k = k and contents = contents and s = s']
  note ex = ex0(1)[where pe = pe and pi = pi] ex0(2-6)
  note ct = afterText_content[where env = env and k = k and contents = contents and s = s'
      and pe = pe and pi = pi]
  have A: "splitFirst CHR ''/'' (splitFirst CHR '';'' header) \<noteq> ''image''
          \<and> splitFirst CHR ''/'' (splitFirst CHR '';'' header) \<noteq> ''application'' \<longrightarrow>
        (\<exists>s2. afterFetch env k (Some r) s = Await (k, nextRef s, Suc (nextRef s), body r) s2
            \<and> doc s2 = doc s)"
    using assms by (simp add: afterFetch_eq Let_def)
  have B: "splitFirst CHR ''/'' (splitFirst CHR '';'' header) = ''application''
          \<and> splitSecond CHR ''/'' (splitFirst CHR '';'' header) \<noteq> Some ''pdf''
          \<and> fresh s \<and> getElementById (doc s) (heap s) (popoverId k) = None \<longrightarrow>
        (\<exists>res. afterFetch env k (Some r) s = Finished res
            \<and> doc (state_of res) = doc s @ [Dom (nextRef s) [Dom (Suc (nextRef s)) []]])"
  proof
    assume h: "splitFirst CHR ''/'' (splitFirst CHR '';'' header) = ''application''
          \<and> splitSecond CHR ''/'' (splitFirst CHR '';'' header) \<noteq> Some ''pdf''
          \<and> fresh s \<and> getElementById (doc s) (heap s) (popoverId k) = None"
    let ?sh = "shell k (splitFirst CHR '';'' header) s"
    have eq: "afterFetch env k (Some r) s
        = Finished (finish env k (nextRef s) (Suc (nextRef s)) [] ?sh)"
      using assms h by (simp add: afterFetch_eq Let_def)
    have g: "getElementById (doc ?sh) (heap ?sh) (popoverId k) = None"
      using getElementById_untouched[of s ?sh "popoverId k"] h shell_untouched[of k _ s] by simp
    have "doc (state_of (finish env k (nextRef s) (Suc (nextRef s)) [] ?sh))
        = doc s @ [Dom (nextRef s) [Dom (Suc (nextRef s)) []]]"
      using g by (simp add: finish_doc)
    then show "\<exists>res. afterFetch env k (Some r) s = Finished res
            \<and> doc (state_of res) = doc s @ [Dom (nextRef s) [Dom (Suc (nextRef s)) []]]"
      unfolding eq by blast
  qed
  have C: "list_all (\<lambda>e. ''popover-hint'' \<notin> set (classList e)) (forest_elements ?parsed)
        \<longrightarrow> returned (afterText env k pe pi contents s') \<and> doc ?S = doc s'"
    using ex(1,4,6) by simp
  have S_kept: "content_kept ?S ?s1"
    using ex(1) finish_kept[of env k pe pi ?ks ?s1] by simp
  have flt: "filter (hasClass (heap ?S) ''popover-hint'') (forest_refs ?html) = ?elts"
    by (rule filter_cong[OF refl]) (use S_kept in \<open>simp add: content_kept_def\<close>)
  have D: "\<not> list_all (\<lambda>e. ''popover-hint'' \<notin> set (classList e)) (forest_elements ?parsed)
          \<and> fresh s' \<and> getElementById (doc s') (heap s') (popoverId k) = None \<longrightarrow>
        (\<exists>ks. doc ?S = doc s' @ [Dom pe [Dom pi ks]] \<and> ks \<noteq> []
             \<and> map root ks = filter (hasClass (heap ?S) ''popover-hint'') (forest_refs ?html)
             \<and> set (forest_refs ks) \<subseteq> set (forest_refs ?html))"
  proof
    assume h: "\<not> list_all (\<lambda>e. ''popover-hint'' \<notin> set (classList e)) (forest_elements ?parsed)
          \<and> fresh s' \<and> getElementById (doc s') (heap s') (popoverId k) = None"
    then have ne: "?elts \<noteq> []" using ex(4) by simp
    have g: "getElementById (doc ?s1) (heap ?s1) (popoverId k) = None"
      using getElementById_untouched[of s' ?s1 "popoverId k"] h ex(5,6) by simp
    have Seq: "?S = state_of (finish env k pe pi ?ks ?s1)" using ex(1) ne by simp
    have dc: "doc ?S = doc s' @ [Dom pe [Dom pi ?ks]]"
      unfolding Seq using g ex(6) by (simp add: finish_doc)
    have rt: "map root ?ks = ?elts" by (rule ex(2))
    have kne: "?ks \<noteq> []" using rt ne by auto
    show "\<exists>ks. doc ?S = doc s' @ [Dom pe [Dom pi ks]] \<and> ks \<noteq> []
             \<and> map root ks = filter (hasClass (heap ?S) ''popover-hint'') (forest_refs ?html)
             \<and> set (forest_refs ks) \<subseteq> set (forest_refs ?html)"
      using dc kne rt ex(3) unfolding flt by blast
  qed
  have E: "fresh s' \<and> getElementById (doc s') (heap s') (popoverId k) \<noteq> None \<longrightarrow> doc ?S = doc s'"
    using afterText_existing[of s' k env pe pi contents] by blast
  show ?thesis
    using A B ct(1) C D E by blast
qed

theorem html_response_yields_preview_content_witness:
  "contentTypeHeader (textHtml ''P'') = Some ''text/html; charset=utf-8''
   \<and> splitFirst CHR ''/'' (splitFirst CHR '';'' ''text/html; charset=utf-8'') = ''text''
   \<and> (\<exists>s2. afterFetch env_page hover_sectionA (Some (textHtml ''P'')) sectionA_fetching
              = Await (hover_sectionA, 3, 4, ''P'') s2 \<and> doc s2 = doc sectionA_fetching)
   \<and> map (\<lambda>x. ident (heap sectionA_shown x)) [5, 6, 7]
       = [None, Some ''popover-internal-sectionA'', Some ''popover-internal-sectionB'']
   \<and> fresh sectionA_waiting
   \<and> getElementById (doc sectionA_waiting) (heap sectionA_waiting) ''popover-/page'' = None
   \<and> (\<exists>ks. doc sectionA_shown = [Dom 1 [], Dom 2 [], Dom 3 [Dom 4 ks]]
          \<and> ks \<noteq> [] \<and> map root ks = [5] \<and> set (forest_refs ks) \<subseteq> {5, 6, 7})
   \<and> contentTypeHeader json = Some ''application/json''
   \<and> splitFirst CHR ''/'' (splitFirst CHR '';'' ''application/json'') = ''application''
   \<and> splitSecond CHR ''/'' (splitFirst CHR '';'' ''application/json'') = Some ''json''
   \<and> fresh sectionA_fetching
   \<and> (\<exists>res. afterFetch env_page hover_sectionA (Some json) sectionA_fetching = Finished res
          \<and> doc (state_of res) = [Dom 1 [], Dom 2 [], Dom 3 [Dom 4 []]])"
proof -
  let ?parsed = "normalizeRelativeURLs env_page (targetUrl hover_sectionA) (parseFromString env_page ''P'')"
  have h1: "contentTypeHeader (textHtml ''P'') = Some ''text/html; charset=utf-8''"
    by (simp add: textHtml_def)
  have c: "splitFirst CHR ''/'' (splitFirst CHR '';'' ''text/html; charset=utf-8'') = ''text''"
    by code_simp
  have n: "nextRef sectionA_fetching = 3" unfolding sectionA_fetching_def by code_simp
  have d0: "doc sectionA_fetching = [Dom 1 [], Dom 2 []]" unfolding sectionA_fetching_def by code_simp
  have d1: "doc sectionA_waiting = [Dom 1 [], Dom 2 []]"
    unfolding sectionA_waiting_def sectionA_fetching_def by code_simp
  have br: "body (textHtml ''P'') = ''P''" by (simp add: textHtml_def)
  have sh: "state_of (afterText env_page hover_sectionA 3 4 ''P'' sectionA_waiting) = sectionA_shown"
    by (simp add: sectionA_shown_def sectionA_waiting_def sectionA_fetching_def)
  have refs: "forest_refs (fst (adopt_list ?parsed sectionA_waiting)) = [5, 6, 7]"
    unfolding sectionA_waiting_def sectionA_fetching_def by code_simp
  have els: "map (\<lambda>e. map_option (\<lambda>i. ''popover-internal-'' @ i) (ident e)) (forest_elements ?parsed)
      = [None, Some ''popover-internal-sectionA'', Some ''popover-internal-sectionB'']"
    by code_simp
  have hints: "\<not> list_all (\<lambda>e. ''popover-hint'' \<notin> set (classList e)) (forest_elements ?parsed)"
    by code_simp
  have fw: "fresh sectionA_waiting" unfolding sectionA_waiting_def sectionA_fetching_def by code_simp
  have gw: "getElementById (doc sectionA_waiting) (heap sectionA_waiting) ''popover-/page'' = None"
    unfolding sectionA_waiting_def sectionA_fetching_def by code_simp
  have pid: "popoverId hover_sectionA = ''popover-/page''" by (simp add: hover_sectionA_def)
  have flt: "filter (hasClass (heap sectionA_shown) ''popover-hint'') [5, 6, 7] = [5]"
    unfolding sectionA_shown_def by code_simp
  note w = html_response_yields_preview_content[OF h1,
      where env = env_page and k = hover_sectionA and pe = 3 and pi = 4 and contents = "''P''"
        and s' = sectionA_waiting and s = sectionA_fetching]
  have A: "\<exists>s2. afterFetch env_page hover_sectionA (Some (textHtml ''P'')) sectionA_fetching
              = Await (hover_sectionA, 3, 4, ''P'') s2 \<and> doc s2 = doc sectionA_fetching"
    using w c n br by simp
  have B: "map (\<lambda>x. ident (heap sectionA_shown x)) [5, 6, 7]
       = [None, Some ''popover-internal-sectionA'', Some ''popover-internal-sectionB'']"
    using w unfolding sh refs els by blast
  have "\<exists>ks. doc sectionA_shown = doc sectionA_waiting @ [Dom 3 [Dom 4 ks]]
          \<and> ks \<noteq> [] \<and> map root ks = filter (hasClass (heap sectionA_shown) ''popover-hint'') [5, 6, 7]
          \<and> set (forest_refs ks) \<subseteq> set [5, 6, 7]"
    using w hints fw gw unfolding sh refs pid by blast
  then have D: "\<exists>ks. doc sectionA_shown = [Dom 1 [], Dom 2 [], Dom 3 [Dom 4 ks]]
          \<and> ks \<noteq> [] \<and> map root ks = [5] \<and> set (forest_refs ks) \<subseteq> {5, 6, 7}"
    unfolding flt d1 by auto
  have j1: "contentTypeHeader json = Some ''application/json''" by (simp add: json_def)
  have j2: "splitFirst CHR ''/'' (splitFirst CHR '';'' ''application/json'') = ''application''"
    by code_simp
  have j3: "splitSecond CHR ''/'' (splitFirst CHR '';'' ''application/json'') = Some ''json''"
    by code_simp
  have ff: "fresh sectionA_fetching" unfolding sectionA_fetching_def by code_simp
  have gf: "getElementById (doc sectionA_fetching) (heap sectionA_fetching) ''popover-/page'' = None"
    unfolding sectionA_fetching_def by code_simp
  note wj = html_response_yields_preview_content[OF j1,
      where env = env_page and k = hover_sectionA and s = sectionA_fetching]
  have "\<exists>res. afterFetch env_page hover_sectionA (Some json) sectionA_fetching = Finished res
          \<and> doc (state_of res) = doc sectionA_fetching @ [Dom 3 [Dom 4 []]]"
    using wj j2 j3 ff gf n pid by simp
  then have J: "\<exists>res. afterFetch env_page hover_sectionA (Some json) sectionA_fetching = Finished res
          \<and> doc (state_of res) = [Dom 1 [], Dom 2 [], Dom 3 [Dom 4 []]]"
    unfolding d0 by simp
  show ?thesis
    using h1 c A B fw gw D j1 j2 j3 ff J by blast
qed




end
